theory Spec2Isabelle
  imports Complex_Main
begin

section \<open>Double-precision values\<close>

text \<open>
  Go's \<^verbatim>\<open>float64\<close>, with the special values of IEEE 754 kept apart from the finite
  ones: a finite value, the two infinities and NaN.  Finite values are exact reals, so the
  model has no rounding, no overflow of finite results and a single zero (read as +0).
  Division by zero, the arithmetic of the infinities, the propagation of NaN and the
  comparisons with NaN are those of the hardware.  What depends on rounding (the last
  bits of a result, or a comparison that they decide) is not decided by this model.
\<close>

datatype float64 = Fin real | PInf | NInf | NaN

fun fneg :: "float64 \<Rightarrow> float64" where
  "fneg (Fin x) = Fin (- x)"
| "fneg PInf = NInf"
| "fneg NInf = PInf"
| "fneg NaN = NaN"

text \<open>\<^verbatim>\<open>x + y\<close>\<close>

fun fadd :: "float64 \<Rightarrow> float64 \<Rightarrow> float64" where
  "fadd (Fin x) (Fin y) = Fin (x + y)"
| "fadd (Fin x) PInf = PInf"
| "fadd (Fin x) NInf = NInf"
| "fadd PInf (Fin y) = PInf"
| "fadd PInf PInf = PInf"
| "fadd PInf NInf = NaN"
| "fadd NInf (Fin y) = NInf"
| "fadd NInf PInf = NaN"
| "fadd NInf NInf = NInf"
| "fadd NaN y = NaN"
| "fadd x NaN = NaN"

text \<open>\<^verbatim>\<open>x - y\<close>\<close>

definition fsub :: "float64 \<Rightarrow> float64 \<Rightarrow> float64" where
  "fsub x y = fadd x (fneg y)"

text \<open>\<^verbatim>\<open>x * y\<close>\<close>

fun fmul :: "float64 \<Rightarrow> float64 \<Rightarrow> float64" where
  "fmul (Fin x) (Fin y) = Fin (x * y)"
| "fmul (Fin x) PInf = (if x = 0 then NaN else if 0 < x then PInf else NInf)"
| "fmul (Fin x) NInf = (if x = 0 then NaN else if 0 < x then NInf else PInf)"
| "fmul PInf (Fin y) = (if y = 0 then NaN else if 0 < y then PInf else NInf)"
| "fmul NInf (Fin y) = (if y = 0 then NaN else if 0 < y then NInf else PInf)"
| "fmul PInf PInf = PInf"
| "fmul PInf NInf = NInf"
| "fmul NInf PInf = NInf"
| "fmul NInf NInf = PInf"
| "fmul NaN y = NaN"
| "fmul x NaN = NaN"

text \<open>\<^verbatim>\<open>x / y\<close>: never a panic; a zero divisor gives an infinity, or NaN for \<^verbatim>\<open>0 / 0\<close>.\<close>

fun fdiv :: "float64 \<Rightarrow> float64 \<Rightarrow> float64" where
  "fdiv (Fin x) (Fin y) =
     (if y = 0 then (if x = 0 then NaN else if 0 < x then PInf else NInf)
      else Fin (x / y))"
| "fdiv (Fin x) PInf = Fin 0"
| "fdiv (Fin x) NInf = Fin 0"
| "fdiv PInf (Fin y) = (if 0 \<le> y then PInf else NInf)"
| "fdiv NInf (Fin y) = (if 0 \<le> y then NInf else PInf)"
| "fdiv PInf PInf = NaN"
| "fdiv PInf NInf = NaN"
| "fdiv NInf PInf = NaN"
| "fdiv NInf NInf = NaN"
| "fdiv NaN y = NaN"
| "fdiv x NaN = NaN"

text \<open>\<^verbatim>\<open>x > y\<close>: false as soon as one side is NaN.\<close>

fun fgt :: "float64 \<Rightarrow> float64 \<Rightarrow> bool" where
  "fgt (Fin x) (Fin y) = (y < x)"
| "fgt (Fin x) PInf = False"
| "fgt (Fin x) NInf = True"
| "fgt PInf (Fin y) = True"
| "fgt PInf PInf = False"
| "fgt PInf NInf = True"
| "fgt NInf y = False"
| "fgt NaN y = False"
| "fgt x NaN = False"

text \<open>\<^verbatim>\<open>x == y\<close>: NaN equals nothing, itself included.\<close>

definition feq :: "float64 \<Rightarrow> float64 \<Rightarrow> bool" where
  "feq x y = (x \<noteq> NaN \<and> y \<noteq> NaN \<and> x = y)"

text \<open>\<^verbatim>\<open>math.Sqrt\<close>: NaN for a negative argument and for NaN, +Inf for +Inf.\<close>

fun fsqrt :: "float64 \<Rightarrow> float64" where
  "fsqrt (Fin x) = (if x < 0 then NaN else Fin (sqrt x))"
| "fsqrt PInf = PInf"
| "fsqrt NInf = NaN"
| "fsqrt NaN = NaN"

text \<open>\<^verbatim>\<open>math.Max\<close>: +Inf if either argument is +Inf, else NaN if either is NaN, else the
  larger one.\<close>

definition fmax :: "float64 \<Rightarrow> float64 \<Rightarrow> float64" where
  "fmax x y =
     (if x = PInf \<or> y = PInf then PInf
      else if x = NaN \<or> y = NaN then NaN
      else if fgt x y then x else y)"

section \<open>Panics and the error monad\<close>

text \<open>
  The values a panic of the three routines can carry: \<^verbatim>\<open>mat64.ErrSquare\<close> (the spec's
  shape error), \<^verbatim>\<open>mat64.ErrShape\<close> (the spec's dimension-mismatch error), an index out
  of range (of a matrix access or of a slice), and the dereference of a pointer that
  points to no matrix.
\<close>

datatype error = ErrSquare | ErrShape | ErrIndexOutOfRange | ErrNilPointer

definition bindE :: "error + 'a \<Rightarrow> ('a \<Rightarrow> error + 'b) \<Rightarrow> error + 'b" where
  "bindE m f = (case m of Inl e \<Rightarrow> Inl e | Inr x \<Rightarrow> f x)"

text \<open>
  \<^verbatim>\<open>for i := lo; i < hi; i++ { body }\<close> runs the body on \<open>[lo..<hi]\<close>, and the
  descending loop of the back substitution on \<open>rev [0..<n]\<close>; no body of the source
  assigns to its counter or to its bound.  A panic in the body ends the loop.
\<close>

fun for_loop :: "nat list \<Rightarrow> (nat \<Rightarrow> 's \<Rightarrow> error + 's) \<Rightarrow> 's \<Rightarrow> error + 's" where
  "for_loop [] body s = Inr s"
| "for_loop (i # is) body s = bindE (body i s) (for_loop is body)"

section \<open>The dense matrix\<close>

text \<open>
  Modelled from the spec: the type \<^verbatim>\<open>mat64.Dense\<close> and its methods \<^verbatim>\<open>Dims\<close>,
  \<^verbatim>\<open>At\<close>, \<^verbatim>\<open>Set\<close>, \<^verbatim>\<open>Row\<close>, \<^verbatim>\<open>SetRow\<close> and the constructor \<^verbatim>\<open>NewDense\<close> are
  not among the sources.  The spec describes a row-major two-dimensional array of
  doubles with a row and a column count, element get and set that are fatal outside
  \<open>0 \<le> i < rows\<close>, \<open>0 \<le> j < cols\<close>, and whole-row get and set.
\<close>

record Dense =
  rows :: nat
  cols :: nat
  data :: "float64 list"

definition wf_Dense :: "Dense \<Rightarrow> bool" where
  "wf_Dense m = (length (data m) = rows m * cols m)"

text \<open>The entry at row \<open>i\<close>, column \<open>j\<close>, unchecked.\<close>

definition el :: "Dense \<Rightarrow> nat \<Rightarrow> nat \<Rightarrow> float64" where
  "el m i j = data m ! (i * cols m + j)"

definition Dense_At :: "Dense \<Rightarrow> nat \<Rightarrow> nat \<Rightarrow> error + float64" where
  "Dense_At m i j =
     (if i < rows m \<and> j < cols m \<and> i * cols m + j < length (data m)
      then Inr (el m i j) else Inl ErrIndexOutOfRange)"

text \<open>The matrix with \<open>v\<close> stored at row \<open>i\<close>, column \<open>j\<close>.\<close>

definition set_el :: "Dense \<Rightarrow> nat \<Rightarrow> nat \<Rightarrow> float64 \<Rightarrow> Dense" where
  "set_el m i j v = m\<lparr>data := (data m)[i * cols m + j := v]\<rparr>"

definition Dense_Set :: "Dense \<Rightarrow> nat \<Rightarrow> nat \<Rightarrow> float64 \<Rightarrow> error + Dense" where
  "Dense_Set m i j v =
     (if i < rows m \<and> j < cols m \<and> i * cols m + j < length (data m)
      then Inr (set_el m i j v) else Inl ErrIndexOutOfRange)"

text \<open>\<^verbatim>\<open>m.Row(dst, i)\<close> copies row \<open>i\<close> into the slice \<open>dst\<close>, as far as both reach.\<close>

definition row_into :: "float64 list \<Rightarrow> Dense \<Rightarrow> nat \<Rightarrow> float64 list" where
  "row_into dst m i = map (\<lambda>q. if q < cols m then el m i q else dst ! q) [0..<length dst]"

definition Dense_Row :: "float64 list \<Rightarrow> Dense \<Rightarrow> nat \<Rightarrow> error + float64 list" where
  "Dense_Row dst m i =
     (if i < rows m \<and> (i + 1) * cols m \<le> length (data m)
      then Inr (row_into dst m i) else Inl ErrIndexOutOfRange)"

text \<open>\<^verbatim>\<open>m.SetRow(i, src)\<close> copies the slice \<open>src\<close> into row \<open>i\<close>, as far as both reach.\<close>

definition set_row :: "Dense \<Rightarrow> nat \<Rightarrow> float64 list \<Rightarrow> Dense" where
  "set_row m i src =
     m\<lparr>data :=
        map (\<lambda>p. if i * cols m \<le> p \<and> p < i * cols m + min (cols m) (length src)
                 then src ! (p - i * cols m) else data m ! p)
          [0..<length (data m)]\<rparr>"

definition Dense_SetRow :: "Dense \<Rightarrow> nat \<Rightarrow> float64 list \<Rightarrow> error + Dense" where
  "Dense_SetRow m i src =
     (if i < rows m \<and> (i + 1) * cols m \<le> length (data m)
      then Inr (set_row m i src) else Inl ErrIndexOutOfRange)"

subsection \<open>Matrices behind pointers\<close>

text \<open>
  The routines take and return \<^verbatim>\<open>*mat64.Dense\<close>.  The store is the list of the
  matrices allocated so far and a pointer is a position in it; a position beyond the
  store stands for a pointer to no matrix.  Every matrix owns its data: two store cells
  never share a backing array.
\<close>

type_synonym store = "Dense list"

definition deref :: "nat \<Rightarrow> store \<Rightarrow> error + Dense" where
  "deref p h = (if p < length h then Inr (h ! p) else Inl ErrNilPointer)"

definition Dims :: "nat \<Rightarrow> store \<Rightarrow> error + (nat \<times> nat)" where
  "Dims p h = bindE (deref p h) (\<lambda>m. Inr (rows m, cols m))"

definition At :: "nat \<Rightarrow> nat \<Rightarrow> nat \<Rightarrow> store \<Rightarrow> error + float64" where
  "At p i j h = bindE (deref p h) (\<lambda>m. Dense_At m i j)"

definition SetAt :: "nat \<Rightarrow> nat \<Rightarrow> nat \<Rightarrow> float64 \<Rightarrow> store \<Rightarrow> error + store" where
  "SetAt p i j v h =
     bindE (deref p h) (\<lambda>m. bindE (Dense_Set m i j v) (\<lambda>m'. Inr (h[p := m'])))"

definition Row :: "nat \<Rightarrow> float64 list \<Rightarrow> nat \<Rightarrow> store \<Rightarrow> error + float64 list" where
  "Row p dst i h = bindE (deref p h) (\<lambda>m. Dense_Row dst m i)"

definition SetRow :: "nat \<Rightarrow> nat \<Rightarrow> float64 list \<Rightarrow> store \<Rightarrow> error + store" where
  "SetRow p i src h =
     bindE (deref p h) (\<lambda>m. bindE (Dense_SetRow m i src) (\<lambda>m'. Inr (h[p := m'])))"

text \<open>\<^verbatim>\<open>mat64.NewDense(r, c, data)\<close>: a fresh matrix, at the end of the store.\<close>

definition NewDense :: "nat \<Rightarrow> nat \<Rightarrow> float64 list \<Rightarrow> store \<Rightarrow> nat \<times> store" where
  "NewDense r c xs h = (length h, h @ [\<lparr>rows = r, cols = c, data = xs\<rparr>])"

text \<open>Indexing a slice: \<^verbatim>\<open>xs[i]\<close> and \<^verbatim>\<open>xs[i] = v\<close> panic out of range.\<close>

definition slice_get :: "float64 list \<Rightarrow> nat \<Rightarrow> error + float64" where
  "slice_get xs i = (if i < length xs then Inr (xs ! i) else Inl ErrIndexOutOfRange)"

definition slice_set :: "float64 list \<Rightarrow> nat \<Rightarrow> float64 \<Rightarrow> error + float64 list" where
  "slice_set xs i v = (if i < length xs then Inr (xs[i := v]) else Inl ErrIndexOutOfRange)"

section \<open>CholeskyL\<close>

text \<open>The variables of \<^verbatim>\<open>CholeskyL\<close> that its loops change.\<close>

record stateL =
  heap :: store
  lRowj :: "float64 list"
  lRowk :: "float64 list"
  spd :: bool
  d :: float64

text \<open>The innermost loop: \<^verbatim>\<open>s += lRowk[i] * lRowj[i]\<close>.\<close>

definition CholeskyL_i :: "float64 list \<Rightarrow> float64 list \<Rightarrow> nat \<Rightarrow> float64 \<Rightarrow> error + float64" where
  "CholeskyL_i rowk rowj i s =
     bindE (slice_get rowk i) (\<lambda>x.
     bindE (slice_get rowj i) (\<lambda>y.
     Inr (fadd s (fmul x y))))"

text \<open>The body of the loop over \<open>k < j\<close>.  The conjunction \<^verbatim>\<open>spd && ...\<close> reads the two
  entries of \<open>a\<close> only while \<open>spd\<close> still holds.\<close>

definition CholeskyL_k :: "nat \<Rightarrow> nat \<Rightarrow> nat \<Rightarrow> nat \<Rightarrow> stateL \<Rightarrow> error + stateL" where
  "CholeskyL_k a l j k st =
     bindE (Row l (lRowk st) k (heap st)) (\<lambda>rowk.
     bindE (for_loop [0..<k] (CholeskyL_i rowk (lRowj st)) (Fin 0)) (\<lambda>s.
     bindE (At a j k (heap st)) (\<lambda>ajk.
     bindE (At l k k (heap st)) (\<lambda>lkk.
     let s = fdiv (fsub ajk s) lkk in
     bindE (slice_set (lRowj st) k s) (\<lambda>rowj.
     bindE (if spd st
            then bindE (At a k j (heap st)) (\<lambda>akj.
                 bindE (At a j k (heap st)) (\<lambda>ajk'. Inr (feq akj ajk')))
            else Inr False) (\<lambda>spd'.
     Inr (st\<lparr>lRowj := rowj, lRowk := rowk, spd := spd',
              d := fadd (d st) (fmul s s)\<rparr>)))))))"

text \<open>The body of the main loop over \<open>j < n\<close>.\<close>

definition CholeskyL_j :: "nat \<Rightarrow> nat \<Rightarrow> nat \<Rightarrow> nat \<Rightarrow> stateL \<Rightarrow> error + stateL" where
  "CholeskyL_j a l n j st0 =
     bindE (Row l (lRowj st0) j (heap st0)) (\<lambda>rowj.
     bindE (for_loop [0..<j] (CholeskyL_k a l j) (st0\<lparr>lRowj := rowj, d := Fin 0\<rparr>)) (\<lambda>st.
     bindE (SetRow l j (lRowj st) (heap st)) (\<lambda>h1.
     bindE (At a j j h1) (\<lambda>ajj.
     let d' = fsub ajj (d st) in
     bindE (SetAt l j j (fsqrt (fmax d' (Fin 0))) h1) (\<lambda>h2.
     bindE (for_loop [j + 1..<n] (\<lambda>k. SetAt l j k (Fin 0)) h2) (\<lambda>h3.
     Inr (st\<lparr>heap := h3, spd := (spd st \<and> fgt d' (Fin 0)), d := d'\<rparr>)))))))"

text \<open>\<^verbatim>\<open>CholeskyL(a)\<close>: the pointer to the new factor, the verdict, and the store.\<close>

definition CholeskyL :: "nat \<Rightarrow> store \<Rightarrow> error + (nat \<times> bool \<times> store)" where
  "CholeskyL a h0 =
     bindE (Dims a h0) (\<lambda>(m, n).
     let (l, h) = NewDense n n (replicate (n * n) (Fin 0)) h0 in
     bindE (for_loop [0..<n] (CholeskyL_j a l n)
              \<lparr>heap = h, lRowj = replicate n (Fin 0), lRowk = replicate n (Fin 0),
               spd = (m = n), d = Fin 0\<rparr>) (\<lambda>st.
     Inr (l, spd st, heap st)))"

section \<open>CholeskyR\<close>

text \<open>The variables of \<^verbatim>\<open>CholeskyR\<close> that its loops change.\<close>

record stateR =
  heapR :: store
  spdR :: bool
  dR :: float64

text \<open>The innermost loop: \<^verbatim>\<open>s -= r.At(i, k) * r.At(i, j)\<close>.\<close>

definition CholeskyR_i :: "nat \<Rightarrow> nat \<Rightarrow> nat \<Rightarrow> store \<Rightarrow> nat \<Rightarrow> float64 \<Rightarrow> error + float64" where
  "CholeskyR_i r j k h i s =
     bindE (At r i k h) (\<lambda>x.
     bindE (At r i j h) (\<lambda>y.
     Inr (fsub s (fmul x y))))"

definition CholeskyR_k :: "nat \<Rightarrow> nat \<Rightarrow> nat \<Rightarrow> nat \<Rightarrow> stateR \<Rightarrow> error + stateR" where
  "CholeskyR_k a r j k st =
     bindE (At a k j (heapR st)) (\<lambda>akj.
     bindE (for_loop [0..<k] (CholeskyR_i r j k (heapR st)) akj) (\<lambda>s.
     bindE (At r k k (heapR st)) (\<lambda>rkk.
     let s = fdiv s rkk in
     bindE (SetAt r k j s (heapR st)) (\<lambda>h1.
     bindE (if spdR st
            then bindE (At a k j h1) (\<lambda>akj'.
                 bindE (At a j k h1) (\<lambda>ajk. Inr (feq akj' ajk)))
            else Inr False) (\<lambda>spd'.
     Inr (st\<lparr>heapR := h1, spdR := spd', dR := fadd (dR st) (fmul s s)\<rparr>))))))"

definition CholeskyR_j :: "nat \<Rightarrow> nat \<Rightarrow> nat \<Rightarrow> nat \<Rightarrow> stateR \<Rightarrow> error + stateR" where
  "CholeskyR_j a r n j st0 =
     bindE (for_loop [0..<j] (CholeskyR_k a r j) (st0\<lparr>dR := Fin 0\<rparr>)) (\<lambda>st.
     bindE (At a j j (heapR st)) (\<lambda>ajj.
     let d' = fsub ajj (dR st) in
     bindE (SetAt r j j (fsqrt (fmax d' (Fin 0))) (heapR st)) (\<lambda>h2.
     bindE (for_loop [j + 1..<n] (\<lambda>k. SetAt r k j (Fin 0)) h2) (\<lambda>h3.
     Inr (st\<lparr>heapR := h3, spdR := (spdR st \<and> fgt d' (Fin 0)), dR := d'\<rparr>)))))"

definition CholeskyR :: "nat \<Rightarrow> store \<Rightarrow> error + (nat \<times> bool \<times> store)" where
  "CholeskyR a h0 =
     bindE (Dims a h0) (\<lambda>(m, n).
     let (r, h) = NewDense n n (replicate (n * n) (Fin 0)) h0 in
     bindE (for_loop [0..<n] (CholeskyR_j a r n)
              \<lparr>heapR = h, spdR = (m = n), dR = Fin 0\<rparr>) (\<lambda>st.
     Inr (r, spdR st, heapR st)))"

section \<open>CholeskySolve\<close>

text \<open>Forward substitution: \<^verbatim>\<open>x.Set(k, j, x.At(k, j) - x.At(i, j)*l.At(k, i))\<close>.\<close>

definition CholeskySolve_fwd_i :: "nat \<Rightarrow> nat \<Rightarrow> nat \<Rightarrow> nat \<Rightarrow> nat \<Rightarrow> store \<Rightarrow> error + store" where
  "CholeskySolve_fwd_i l x k j i h =
     bindE (At x k j h) (\<lambda>xkj.
     bindE (At x i j h) (\<lambda>xij.
     bindE (At l k i h) (\<lambda>lki.
     SetAt x k j (fsub xkj (fmul xij lki)) h)))"

text \<open>\<^verbatim>\<open>x.Set(k, j, x.At(k, j) / l.At(k, k))\<close>, the last statement of both phases.\<close>

definition CholeskySolve_div :: "nat \<Rightarrow> nat \<Rightarrow> nat \<Rightarrow> nat \<Rightarrow> store \<Rightarrow> error + store" where
  "CholeskySolve_div l x k j h =
     bindE (At x k j h) (\<lambda>xkj.
     bindE (At l k k h) (\<lambda>lkk.
     SetAt x k j (fdiv xkj lkk) h))"

definition CholeskySolve_fwd_j :: "nat \<Rightarrow> nat \<Rightarrow> nat \<Rightarrow> nat \<Rightarrow> store \<Rightarrow> error + store" where
  "CholeskySolve_fwd_j l x k j h =
     bindE (for_loop [0..<k] (CholeskySolve_fwd_i l x k j) h) (CholeskySolve_div l x k j)"

text \<open>Back substitution: \<^verbatim>\<open>x.Set(k, j, x.At(k, j) - x.At(i, j)*l.At(i, k))\<close>.\<close>

definition CholeskySolve_back_i :: "nat \<Rightarrow> nat \<Rightarrow> nat \<Rightarrow> nat \<Rightarrow> nat \<Rightarrow> store \<Rightarrow> error + store" where
  "CholeskySolve_back_i l x k j i h =
     bindE (At x k j h) (\<lambda>xkj.
     bindE (At x i j h) (\<lambda>xij.
     bindE (At l i k h) (\<lambda>lik.
     SetAt x k j (fsub xkj (fmul xij lik)) h)))"

definition CholeskySolve_back_j :: "nat \<Rightarrow> nat \<Rightarrow> nat \<Rightarrow> nat \<Rightarrow> nat \<Rightarrow> store \<Rightarrow> error + store" where
  "CholeskySolve_back_j l x n k j h =
     bindE (for_loop [k + 1..<n] (CholeskySolve_back_i l x k j) h) (CholeskySolve_div l x k j)"

text \<open>\<^verbatim>\<open>CholeskySolve(l, b)\<close>: the pointer returned, and the store.  The second check
  compares the order of \<open>l\<close> with \<open>bn\<close>, the second component of \<^verbatim>\<open>b.Dims()\<close>.\<close>

definition CholeskySolve :: "nat \<Rightarrow> nat \<Rightarrow> store \<Rightarrow> error + (nat \<times> store)" where
  "CholeskySolve l b h0 =
     bindE (Dims l h0) (\<lambda>(m, n).
     if n \<noteq> m then Inl ErrSquare else
     bindE (Dims b h0) (\<lambda>(bm, bn).
     if n \<noteq> bn then Inl ErrShape else
     let nx = bn; x = b in
     bindE (for_loop [0..<n] (\<lambda>k. for_loop [0..<nx] (CholeskySolve_fwd_j l x k)) h0) (\<lambda>h1.
     bindE (for_loop (rev [0..<n]) (\<lambda>k. for_loop [0..<nx] (CholeskySolve_back_j l x n k)) h1) (\<lambda>h2.
     Inr (x, h2)))))"

section \<open>What the factorizers compute\<close>

text \<open>
  The sums of the inner loops, written on the entries of a matrix and accumulated in
  the order of the source: \<open>dotL L k j m\<close> is the sum over \<open>i < m\<close> of
  \<open>L[k,i] * L[j,i]\<close>, \<open>sumsq_row L j m\<close> the sum over \<open>k < m\<close> of the squares
  \<open>L[j,k]\<^sup>2\<close>, and \<open>pivotL A L j\<close> the value \<open>d = A[j,j] - d\<close> that
  \<^verbatim>\<open>CholeskyL\<close> compares with zero and clamps before the square root.
\<close>

definition dotL :: "Dense \<Rightarrow> nat \<Rightarrow> nat \<Rightarrow> nat \<Rightarrow> float64" where
  "dotL L k j m = fold (\<lambda>i s. fadd s (fmul (el L k i) (el L j i))) [0..<m] (Fin 0)"

definition sumsq_row :: "Dense \<Rightarrow> nat \<Rightarrow> nat \<Rightarrow> float64" where
  "sumsq_row L j m = fold (\<lambda>k s. fadd s (fmul (el L j k) (el L j k))) [0..<m] (Fin 0)"

definition pivotL :: "Dense \<Rightarrow> Dense \<Rightarrow> nat \<Rightarrow> float64" where
  "pivotL A L j = fsub (el A j j) (sumsq_row L j j)"

text \<open>Row \<open>j\<close> of \<open>L\<close> is what the \<open>j\<close>-th round of \<^verbatim>\<open>CholeskyL\<close> stores.\<close>

definition rowL_ok :: "Dense \<Rightarrow> Dense \<Rightarrow> nat \<Rightarrow> nat \<Rightarrow> bool" where
  "rowL_ok A L n j =
     ((\<forall>k<j. el L j k = fdiv (fsub (el A j k) (dotL L k j k)) (el L k k)) \<and>
      el L j j = fsqrt (fmax (pivotL A L j) (Fin 0)) \<and>
      (\<forall>k. j < k \<and> k < n \<longrightarrow> el L j k = Fin 0))"

text \<open>The symmetry test \<^verbatim>\<open>a.At(k, j) == a.At(j, k)\<close> on every pair \<open>k < j' < j\<close>.\<close>

definition sym_upto :: "Dense \<Rightarrow> nat \<Rightarrow> bool" where
  "sym_upto A j = (\<forall>j'<j. \<forall>k<j'. feq (el A k j') (el A j' k))"

section \<open>Loop invariants of \<^verbatim>\<open>CholeskyL\<close>\<close>

text \<open>The same sums, read from the row buffer \<^verbatim>\<open>lRowj\<close> while row \<open>j\<close> is being built.\<close>

definition dot_buf :: "Dense \<Rightarrow> nat \<Rightarrow> float64 list \<Rightarrow> nat \<Rightarrow> float64" where
  "dot_buf L k row m = fold (\<lambda>i s. fadd s (fmul (el L k i) (row ! i))) [0..<m] (Fin 0)"

definition sumsq_buf :: "float64 list \<Rightarrow> nat \<Rightarrow> float64" where
  "sumsq_buf row m = fold (\<lambda>k s. fadd s (fmul (row ! k) (row ! k))) [0..<m] (Fin 0)"

text \<open>Before round \<open>k\<close> of the loop over \<open>k < j\<close>: the factor is untouched, the buffer
  holds the entries \<open>k' < k\<close> of row \<open>j\<close>, \<open>d\<close> their sum of squares, and \<open>spd\<close> the
  verdict \<open>sp\<close> at the start of the row and the symmetry of the pairs seen since.\<close>

definition invL_k :: "store \<Rightarrow> Dense \<Rightarrow> Dense \<Rightarrow> nat \<Rightarrow> nat \<Rightarrow> bool \<Rightarrow> nat \<Rightarrow> stateL \<Rightarrow> bool" where
  "invL_k h A L n j sp k st =
     (heap st = h @ [L] \<and> length (lRowj st) = n \<and> length (lRowk st) = n \<and>
      (\<forall>k'<k. lRowj st ! k' =
          fdiv (fsub (el A j k') (dot_buf L k' (lRowj st) k')) (el L k' k')) \<and>
      d st = sumsq_buf (lRowj st) k \<and>
      (spd st \<longleftrightarrow> sp \<and> (\<forall>k'<k. feq (el A k' j) (el A j k'))))"

text \<open>Before round \<open>j\<close> of the main loop: the store is the initial one and the factor, the
  rows \<open>j' < j\<close> of the factor are final, and \<open>spd\<close> records the shape, the symmetry
  tests and the pivots so far.\<close>

definition invL_j :: "store \<Rightarrow> Dense \<Rightarrow> nat \<Rightarrow> nat \<Rightarrow> stateL \<Rightarrow> bool" where
  "invL_j h A n j st =
     (\<exists>L. heap st = h @ [L] \<and> rows L = n \<and> cols L = n \<and> wf_Dense L \<and>
          length (lRowj st) = n \<and> length (lRowk st) = n \<and>
          (\<forall>j'<j. rowL_ok A L n j') \<and>
          (spd st \<longleftrightarrow> rows A = n \<and> sym_upto A j \<and> (\<forall>j'<j. fgt (pivotL A L j') (Fin 0))))"

section \<open>What \<^verbatim>\<open>CholeskyR\<close> computes, and its loop invariants\<close>

text \<open>
  \<open>subR A R k j m\<close> is \<open>A[k,j]\<close> after the subtractions \<^verbatim>\<open>s -= r.At(i, k) * r.At(i, j)\<close>
  for \<open>i < m\<close>, \<open>sumsq_col R j m\<close> the sum over \<open>k < m\<close> of the squares \<open>R[k,j]\<^sup>2\<close>,
  and \<open>pivotR A R j\<close> the value \<open>d = A[j,j] - d\<close> of \<^verbatim>\<open>CholeskyR\<close>.
\<close>

definition subR :: "Dense \<Rightarrow> Dense \<Rightarrow> nat \<Rightarrow> nat \<Rightarrow> nat \<Rightarrow> float64" where
  "subR A R k j m = fold (\<lambda>i s. fsub s (fmul (el R i k) (el R i j))) [0..<m] (el A k j)"

definition sumsq_col :: "Dense \<Rightarrow> nat \<Rightarrow> nat \<Rightarrow> float64" where
  "sumsq_col R j m = fold (\<lambda>k s. fadd s (fmul (el R k j) (el R k j))) [0..<m] (Fin 0)"

definition pivotR :: "Dense \<Rightarrow> Dense \<Rightarrow> nat \<Rightarrow> float64" where
  "pivotR A R j = fsub (el A j j) (sumsq_col R j j)"

text \<open>Column \<open>j\<close> of \<open>R\<close> is what the \<open>j\<close>-th round of \<^verbatim>\<open>CholeskyR\<close> stores.\<close>

definition colR_ok :: "Dense \<Rightarrow> Dense \<Rightarrow> nat \<Rightarrow> nat \<Rightarrow> bool" where
  "colR_ok A R n j =
     ((\<forall>k<j. el R k j = fdiv (subR A R k j k) (el R k k)) \<and>
      el R j j = fsqrt (fmax (pivotR A R j) (Fin 0)) \<and>
      (\<forall>k. j < k \<and> k < n \<longrightarrow> el R k j = Fin 0))"

text \<open>Before round \<open>k\<close> of the loop over \<open>k < j\<close>: only column \<open>j\<close> of the factor \<open>R0\<close>
  of the start of the round has changed, and its entries \<open>k' < k\<close> are final.\<close>

definition invR_k :: "store \<Rightarrow> Dense \<Rightarrow> Dense \<Rightarrow> nat \<Rightarrow> nat \<Rightarrow> bool \<Rightarrow> nat \<Rightarrow> stateR \<Rightarrow> bool" where
  "invR_k h A R0 n j sp k st =
     (\<exists>R. heapR st = h @ [R] \<and> rows R = n \<and> cols R = n \<and> wf_Dense R \<and>
          (\<forall>i<n. \<forall>q<n. q \<noteq> j \<longrightarrow> el R i q = el R0 i q) \<and>
          (\<forall>k'<k. el R k' j = fdiv (subR A R k' j k') (el R k' k')) \<and>
          dR st = sumsq_col R j k \<and>
          (spdR st \<longleftrightarrow> sp \<and> (\<forall>k'<k. feq (el A k' j) (el A j k'))))"

definition invR_j :: "store \<Rightarrow> Dense \<Rightarrow> nat \<Rightarrow> nat \<Rightarrow> stateR \<Rightarrow> bool" where
  "invR_j h A n j st =
     (\<exists>R. heapR st = h @ [R] \<and> rows R = n \<and> cols R = n \<and> wf_Dense R \<and>
          (\<forall>j'<j. colR_ok A R n j') \<and>
          (spdR st \<longleftrightarrow> rows A = n \<and> sym_upto A j \<and> (\<forall>j'<j. fgt (pivotR A R j') (Fin 0))))"

section \<open>Frame conditions\<close>

text \<open>The store \<open>h'\<close> differs from \<open>h\<close> at most in the matrix behind the pointer \<open>b\<close>.\<close>

definition only_changes :: "nat \<Rightarrow> store \<Rightarrow> store \<Rightarrow> bool" where
  "only_changes b h h' = (length h' = length h \<and> (\<forall>p. p \<noteq> b \<longrightarrow> h' ! p = h ! p))"

section \<open>Example matrices\<close>

text \<open>The matrix \<open>[[4,2],[2,3]]\<close> of the spec, its two factors (their last entry is
  \<^verbatim>\<open>math.Sqrt(2)\<close>), the right-hand side \<open>[[1],[2]]\<close> of the spec, the same column given
  twice, and the solution of the latter in unrounded arithmetic.\<close>

definition ex_A :: Dense where
  "ex_A = \<lparr>rows = 2, cols = 2, data = [Fin 4, Fin 2, Fin 2, Fin 3]\<rparr>"

definition ex_L :: Dense where
  "ex_L = \<lparr>rows = 2, cols = 2, data = [Fin 2, Fin 0, Fin 1, fsqrt (Fin 2)]\<rparr>"

definition ex_R :: Dense where
  "ex_R = \<lparr>rows = 2, cols = 2, data = [Fin 2, Fin 1, Fin 0, fsqrt (Fin 2)]\<rparr>"

definition ex_B :: Dense where
  "ex_B = \<lparr>rows = 2, cols = 1, data = [Fin 1, Fin 2]\<rparr>"

definition ex_B2 :: Dense where
  "ex_B2 = \<lparr>rows = 2, cols = 2, data = [Fin 1, Fin 1, Fin 2, Fin 2]\<rparr>"

definition ex_X2 :: Dense where
  "ex_X2 = \<lparr>rows = 2, cols = 2, data = [Fin (- 1 / 8), Fin (- 1 / 8), Fin (3 / 4), Fin (3 / 4)]\<rparr>"

text \<open>A right-hand side with one row and two columns, a factor stored with two rows
  and three columns, the asymmetric matrix \<open>[[4,2],[3,3]]\<close> of the spec with its factor,
  the zero matrix of order \<open>n\<close>, and what \<^verbatim>\<open>CholeskyL\<close> returns on the one of order two.\<close>

definition ex_B12 :: Dense where
  "ex_B12 = \<lparr>rows = 1, cols = 2, data = [Fin 1, Fin 2]\<rparr>"

definition ex_L23 :: Dense where
  "ex_L23 = \<lparr>rows = 2, cols = 3, data = [Fin 1, Fin 0, Fin 0, Fin 0, Fin 1, Fin 0]\<rparr>"

definition ex_asym :: Dense where
  "ex_asym = \<lparr>rows = 2, cols = 2, data = [Fin 4, Fin 2, Fin 3, Fin 3]\<rparr>"

definition ex_asym_L :: Dense where
  "ex_asym_L = \<lparr>rows = 2, cols = 2, data = [Fin 2, Fin 0, Fin (3 / 2), fsqrt (Fin (3 / 4))]\<rparr>"

definition zero_Dense :: "nat \<Rightarrow> Dense" where
  "zero_Dense n = \<lparr>rows = n, cols = n, data = replicate (n * n) (Fin 0)\<rparr>"

definition ex_zero2_L :: Dense where
  "ex_zero2_L = \<lparr>rows = 2, cols = 2, data = [Fin 0, Fin 0, NaN, NaN]\<rparr>"

text \<open>The indefinite matrix \<open>[[1,2],[2,1]]\<close> of the spec and its two factors.\<close>

definition ex_indef :: Dense where
  "ex_indef = \<lparr>rows = 2, cols = 2, data = [Fin 1, Fin 2, Fin 2, Fin 1]\<rparr>"

definition ex_indef_L :: Dense where
  "ex_indef_L = \<lparr>rows = 2, cols = 2, data = [Fin 1, Fin 0, Fin 2, Fin 0]\<rparr>"

definition ex_indef_R :: Dense where
  "ex_indef_R = \<lparr>rows = 2, cols = 2, data = [Fin 1, Fin 2, Fin 0, Fin 0]\<rparr>"

section \<open>Basic facts\<close>

lemma bindE_Inl [simp]: "bindE (Inl e) f = Inl e"
  by (simp add: bindE_def)

lemma bindE_Inr [simp]: "bindE (Inr x) f = f x"
  by (simp add: bindE_def)

lemma bindE_eq_Inr: "bindE m f = Inr y \<longleftrightarrow> (\<exists>x. m = Inr x \<and> f x = Inr y)"
  by (cases m) simp_all

lemma for_loop_append:
  "for_loop (xs @ ys) body s = bindE (for_loop xs body s) (for_loop ys body)"
proof (induction xs arbitrary: s)
  case Nil
  show ?case by simp
next
  case (Cons x xs)
  show ?case
  proof (cases "body x s")
    case (Inl e)
    then show ?thesis by simp
  next
    case (Inr t)
    then show ?thesis using Cons.IH [of t] by simp
  qed
qed

lemma for_loop_single: "for_loop [i] body s = body i s"
  by (cases "body i s") simp_all

lemma for_loop_upt_Suc:
  "lo \<le> hi \<Longrightarrow> for_loop [lo..<Suc hi] body s = bindE (for_loop [lo..<hi] body s) (body hi)"
proof -
  assume "lo \<le> hi"
  then have "[lo..<Suc hi] = [lo..<hi] @ [hi]" by simp
  then have "for_loop [lo..<Suc hi] body s = bindE (for_loop [lo..<hi] body s) (for_loop [hi] body)"
    by (simp only: for_loop_append)
  also have "for_loop [hi] body = body hi"
    by (rule ext) (rule for_loop_single)
  finally show ?thesis .
qed

lemma for_loop_total:
  assumes le: "lo \<le> hi"
    and init: "I lo s"
    and step: "\<And>i t. lo \<le> i \<Longrightarrow> i < hi \<Longrightarrow> I i t \<Longrightarrow> \<exists>t'. body i t = Inr t' \<and> I (Suc i) t'"
  shows "\<exists>s'. for_loop [lo..<hi] body s = Inr s' \<and> I hi s'"
  using le step
proof (induction hi rule: dec_induct)
  case base
  show ?case using init by simp
next
  case (step n)
  have "\<exists>s'. for_loop [lo..<n] body s = Inr s' \<and> I n s'"
    using step.IH step.prems by (meson less_Suc_eq)
  then obtain s1 where s1: "for_loop [lo..<n] body s = Inr s1" "I n s1" by blast
  obtain s2 where s2: "body n s1 = Inr s2" "I (Suc n) s2"
    using step.prems [of n s1] step.hyps s1 by auto
  show ?case using s1 s2 step.hyps by (simp add: for_loop_upt_Suc del: upt_Suc)
qed

lemma for_loop_pure:
  "(\<And>i t. i \<in> set xs \<Longrightarrow> body i t = Inr (f i t)) \<Longrightarrow> for_loop xs body s = Inr (fold f xs s)"
  by (induction xs arbitrary: s) simp_all

lemma for_loop_rel:
  assumes refl: "\<And>t. R t t"
    and trans: "\<And>t u v. R t u \<Longrightarrow> R u v \<Longrightarrow> R t v"
    and step: "\<And>i t t'. body i t = Inr t' \<Longrightarrow> R t t'"
  shows "for_loop xs body s = Inr s' \<Longrightarrow> R s s'"
proof (induction xs arbitrary: s)
  case Nil
  then show ?case using refl by simp
next
  case (Cons x xs)
  then obtain t where t: "body x s = Inr t" "for_loop xs body t = Inr s'"
    by (auto simp: bindE_eq_Inr)
  show ?case using trans [OF step [OF t(1)] Cons.IH [OF t(2)]] .
qed

lemma idx_lt: "i < r \<Longrightarrow> j < c \<Longrightarrow> i * c + j < r * (c::nat)"
proof -
  assume a: "i < r" "j < c"
  have "i * c + j < Suc i * c" using a by simp
  also have "\<dots> \<le> r * c" using a by (intro mult_le_mono1) simp
  finally show ?thesis .
qed

lemma idx_inj:
  assumes "j < c" "j' < c"
  shows "(i * c + j = i' * c + j') = (i = i' \<and> j = (j'::nat))"
proof -
  have "(i * c + j) div c = i" "(i * c + j) mod c = j" using assms by simp_all
  moreover have "(i' * c + j') div c = i'" "(i' * c + j') mod c = j'" using assms by simp_all
  ultimately show ?thesis by metis
qed

lemma fold_upt_cong:
  "(\<And>i. i < m \<Longrightarrow> f i = g i) \<Longrightarrow> fold f [0..<m] s = fold g [0..<m] s"
  by (rule fold_cong) simp_all

section \<open>Facts about the arithmetic\<close>

lemma fadd_NaN_right: "fadd x NaN = NaN"
  by (cases x) simp_all

lemma fsub_NaN_right: "fsub x NaN = NaN"
  by (simp add: fsub_def fadd_NaN_right)

lemma fold_fadd_NaN: "fold (\<lambda>i s. fadd s (f i)) xs NaN = NaN"
  by (induction xs) simp_all

text \<open>A sum whose first term is NaN is NaN.\<close>

lemma fold_fadd_first_NaN:
  assumes "0 < m" "f 0 = NaN"
  shows "fold (\<lambda>i s. fadd s (f i)) [0..<m] (Fin 0) = NaN"
proof -
  have "[0..<m] = 0 # [1..<m]" using assms(1) by (simp add: upt_conv_Cons)
  then show ?thesis using assms(2) by (simp add: fold_fadd_NaN)
qed

lemma fmax_zero_not_neg: "\<not> fgt (Fin 0) (fmax x (Fin 0))"
  by (cases x) (simp_all add: fmax_def)

lemma fsqrt_fmax_NaN: "fsqrt (fmax x (Fin 0)) = NaN \<Longrightarrow> x = NaN"
  by (cases x) (simp_all add: fmax_def split: if_splits)



section \<open>The matrix primitives on well-formed matrices\<close>

lemma rows_set_el [simp]: "rows (set_el m i j v) = rows m"
  by (simp add: set_el_def)

lemma cols_set_el [simp]: "cols (set_el m i j v) = cols m"
  by (simp add: set_el_def)

lemma wf_set_el [simp]: "wf_Dense (set_el m i j v) = wf_Dense m"
  by (simp add: set_el_def wf_Dense_def)

lemma el_set_el:
  assumes "wf_Dense m" "i < rows m" "j < cols m" "i' < rows m" "j' < cols m"
  shows "el (set_el m i j v) i' j' = (if i' = i \<and> j' = j then v else el m i' j')"
proof -
  have "i * cols m + j < length (data m)"
    using assms idx_lt [of i "rows m" j "cols m"] by (simp add: wf_Dense_def)
  moreover have "(i * cols m + j = i' * cols m + j') = (i = i' \<and> j = j')"
    using assms by (simp add: idx_inj)
  ultimately show ?thesis
    by (auto simp: el_def set_el_def)
qed

lemma Dense_At_ok:
  "wf_Dense m \<Longrightarrow> i < rows m \<Longrightarrow> j < cols m \<Longrightarrow> Dense_At m i j = Inr (el m i j)"
  using idx_lt [of i "rows m" j "cols m"] by (simp add: Dense_At_def wf_Dense_def)

lemma Dense_Set_ok:
  "wf_Dense m \<Longrightarrow> i < rows m \<Longrightarrow> j < cols m \<Longrightarrow> Dense_Set m i j v = Inr (set_el m i j v)"
  using idx_lt [of i "rows m" j "cols m"] by (simp add: Dense_Set_def wf_Dense_def)

lemma row_fits: "i < r \<Longrightarrow> (i + 1) * c \<le> r * (c::nat)"
  by (intro mult_le_mono1) simp

lemma Dense_Row_ok:
  "wf_Dense m \<Longrightarrow> i < rows m \<Longrightarrow> Dense_Row dst m i = Inr (row_into dst m i)"
  using row_fits [of i "rows m" "cols m"] by (simp add: Dense_Row_def wf_Dense_def)

lemma length_row_into [simp]: "length (row_into dst m i) = length dst"
  by (simp add: row_into_def)

lemma nth_row_into:
  "q < length dst \<Longrightarrow> row_into dst m i ! q = (if q < cols m then el m i q else dst ! q)"
  by (simp add: row_into_def)

lemma Dense_SetRow_ok:
  "wf_Dense m \<Longrightarrow> i < rows m \<Longrightarrow> Dense_SetRow m i src = Inr (set_row m i src)"
  using row_fits [of i "rows m" "cols m"] by (simp add: Dense_SetRow_def wf_Dense_def)

lemma rows_set_row [simp]: "rows (set_row m i src) = rows m"
  by (simp add: set_row_def)

lemma cols_set_row [simp]: "cols (set_row m i src) = cols m"
  by (simp add: set_row_def)

lemma wf_set_row [simp]: "wf_Dense (set_row m i src) = wf_Dense m"
  by (simp add: set_row_def wf_Dense_def)

lemma in_row_iff:
  assumes "j' < (c::nat)"
  shows "(i * c \<le> i' * c + j' \<and> i' * c + j' < i * c + c) = (i' = i)"
proof (cases "i' = i")
  case True
  then show ?thesis using assms by simp
next
  case False
  then consider "i' < i" | "i < i'" by linarith
  then show ?thesis
  proof cases
    case 1
    then have "Suc i' * c \<le> i * c" by (intro mult_le_mono1) simp
    then show ?thesis using assms False by auto
  next
    case 2
    then have "Suc i * c \<le> i' * c" by (intro mult_le_mono1) simp
    then show ?thesis using assms False by auto
  qed
qed

lemma el_set_row:
  assumes "wf_Dense m" "i' < rows m" "j' < cols m" "length src = cols m"
  shows "el (set_row m i src) i' j' = (if i' = i then src ! j' else el m i' j')"
proof -
  define p where "p = i' * cols m + j'"
  have p: "p < length (data m)"
    using assms idx_lt [of i' "rows m" j' "cols m"] by (simp add: wf_Dense_def p_def)
  have "el (set_row m i src) i' j' = data (set_row m i src) ! p"
    by (simp add: el_def p_def)
  also have "\<dots> = (if i * cols m \<le> p \<and> p < i * cols m + cols m
                    then src ! (p - i * cols m) else data m ! p)"
    using p assms(4) by (simp add: set_row_def)
  also have "\<dots> = (if i' = i then src ! j' else el m i' j')"
    using in_row_iff [OF assms(3), of i i'] by (auto simp: p_def el_def)
  finally show ?thesis .
qed

lemma At_new: "At (length h) i j (h @ [L]) = Dense_At L i j"
  by (simp add: At_def deref_def)

lemma At_old: "a < length h \<Longrightarrow> At a i j (h @ [L]) = Dense_At (h ! a) i j"
  by (simp add: At_def deref_def nth_append)

lemma At_row_out:
  "a < length h \<Longrightarrow> rows (h ! a) \<le> i \<Longrightarrow> At a i j (h @ [L]) = Inl ErrIndexOutOfRange"
  by (simp add: At_old Dense_At_def)

lemma SetAt_new:
  "SetAt (length h) i j v (h @ [L]) = bindE (Dense_Set L i j v) (\<lambda>L'. Inr (h @ [L']))"
  by (simp add: SetAt_def deref_def)

lemma Row_new: "Row (length h) dst i (h @ [L]) = Dense_Row dst L i"
  by (simp add: Row_def deref_def)

lemma SetRow_new:
  "SetRow (length h) i src (h @ [L]) = bindE (Dense_SetRow L i src) (\<lambda>L'. Inr (h @ [L']))"
  by (simp add: SetRow_def deref_def)

lemma Dims_ok: "a < length h \<Longrightarrow> Dims a h = Inr (rows (h ! a), cols (h ! a))"
  by (simp add: Dims_def deref_def)

lemma Dims_nil: "\<not> a < length h \<Longrightarrow> Dims a h = Inl ErrNilPointer"
  by (simp add: Dims_def deref_def)

lemma wf_zero_Dense: "wf_Dense (zero_Dense n)"
  by (simp add: wf_Dense_def zero_Dense_def)

lemma el_zero_Dense: "i < n \<Longrightarrow> j < n \<Longrightarrow> el (zero_Dense n) i j = Fin 0"
  using idx_lt [of i n j n] by (simp add: el_def zero_Dense_def)

section \<open>The rounds of \<^verbatim>\<open>CholeskyL\<close>\<close>

lemma dot_buf_update:
  "k' \<le> k \<Longrightarrow> dot_buf L q (row[k := v]) k' = dot_buf L q row k'"
  unfolding dot_buf_def by (rule fold_upt_cong) simp

lemma sumsq_buf_update:
  "k' \<le> k \<Longrightarrow> sumsq_buf (row[k := v]) k' = sumsq_buf row k'"
  unfolding sumsq_buf_def by (rule fold_upt_cong) simp

lemma sumsq_buf_Suc:
  "sumsq_buf row (Suc k) = fadd (sumsq_buf row k) (fmul (row ! k) (row ! k))"
  by (simp add: sumsq_buf_def)

lemma CholeskyL_k_step:
  assumes a: "a < length h" and wfA: "wf_Dense (h ! a)" and cA: "cols (h ! a) = n"
    and jA: "j < rows (h ! a)"
    and wfL: "wf_Dense L" and rL: "rows L = n" and cL: "cols L = n"
    and kj: "k < j" and jn: "j < n"
    and inv: "invL_k h (h ! a) L n j sp k st"
  shows "\<exists>st'. CholeskyL_k a (length h) j k st = Inr st' \<and> invL_k h (h ! a) L n j sp (Suc k) st'"
proof -
  let ?A = "h ! a"
  have hp: "heap st = h @ [L]" and lenj: "length (lRowj st) = n" and lenk: "length (lRowk st) = n"
    and ent: "\<forall>k'<k. lRowj st ! k' =
          fdiv (fsub (el ?A j k') (dot_buf L k' (lRowj st) k')) (el L k' k')"
    and dd: "d st = sumsq_buf (lRowj st) k"
    and sp: "spd st \<longleftrightarrow> sp \<and> (\<forall>k'<k. feq (el ?A k' j) (el ?A j k'))"
    using inv by (simp_all add: invL_k_def)
  have kn: "k < n" using kj jn by simp
  define rowk where "rowk = row_into (lRowk st) L k"
  have row: "Row (length h) (lRowk st) k (heap st) = Inr rowk"
    using wfL rL kn by (simp add: hp Row_new Dense_Row_ok rowk_def)
  have lrowk: "length rowk = n" by (simp add: rowk_def lenk)
  have rk: "rowk ! i = el L k i" if "i < n" for i
    using that by (simp add: rowk_def nth_row_into lenk cL)
  define dot where "dot = dot_buf L k (lRowj st) k"
  have "for_loop [0..<k] (CholeskyL_i rowk (lRowj st)) (Fin 0) =
        Inr (fold (\<lambda>i s. fadd s (fmul (rowk ! i) (lRowj st ! i))) [0..<k] (Fin 0))"
    by (rule for_loop_pure) (use kn lrowk lenj in \<open>simp add: CholeskyL_i_def slice_get_def\<close>)
  also have "fold (\<lambda>i s. fadd s (fmul (rowk ! i) (lRowj st ! i))) [0..<k] (Fin 0) = dot"
    unfolding dot_def dot_buf_def by (rule fold_upt_cong) (use kn rk in simp)
  finally have inner: "for_loop [0..<k] (CholeskyL_i rowk (lRowj st)) (Fin 0) = Inr dot" .
  have ajk: "At a j k (heap st) = Inr (el ?A j k)"
    using a wfA cA jA kn by (simp add: hp At_old Dense_At_ok)
  have akj: "At a k j (heap st) = Inr (el ?A k j)"
    using a wfA cA jA kj jn by (simp add: hp At_old Dense_At_ok)
  have lkk: "At (length h) k k (heap st) = Inr (el L k k)"
    using wfL rL cL kn by (simp add: hp At_new Dense_At_ok)
  define s' where "s' = fdiv (fsub (el ?A j k) dot) (el L k k)"
  have sset: "slice_set (lRowj st) k s' = Inr ((lRowj st)[k := s'])"
    using kn lenj by (simp add: slice_set_def)
  define st' where "st' = st\<lparr>lRowj := (lRowj st)[k := s'], lRowk := rowk,
      spd := (spd st \<and> feq (el ?A k j) (el ?A j k)), d := fadd (d st) (fmul s' s')\<rparr>"
  have res: "CholeskyL_k a (length h) j k st = Inr st'"
    by (cases "spd st") (simp_all add: CholeskyL_k_def Let_def row inner ajk akj lkk sset [unfolded s'_def] s'_def st'_def)
  have e1: "\<forall>k'<Suc k. lRowj st' ! k' =
          fdiv (fsub (el ?A j k') (dot_buf L k' (lRowj st') k')) (el L k' k')"
  proof (intro allI impI)
    fix k' assume k': "k' < Suc k"
    show "lRowj st' ! k' = fdiv (fsub (el ?A j k') (dot_buf L k' (lRowj st') k')) (el L k' k')"
    proof (cases "k' = k")
      case True
      then show ?thesis
        using kn lenj by (simp add: st'_def dot_buf_update s'_def dot_def)
    next
      case False
      then have "k' < k" using k' by simp
      then show ?thesis
        using ent by (simp add: st'_def dot_buf_update)
    qed
  qed
  have e2: "d st' = sumsq_buf (lRowj st') (Suc k)"
    using kn lenj by (simp add: st'_def sumsq_buf_Suc sumsq_buf_update dd)
  have e3: "spd st' \<longleftrightarrow> sp \<and> (\<forall>k'<Suc k. feq (el ?A k' j) (el ?A j k'))"
    using sp by (auto simp: st'_def less_Suc_eq)
  have "invL_k h ?A L n j sp (Suc k) st'"
    unfolding invL_k_def using e1 e2 e3 hp lenj lrowk by (simp add: st'_def)
  then show ?thesis using res by blast
qed

lemma dotL_cong:
  "(\<And>i. i < m \<Longrightarrow> el L' k i = el L k i \<and> el L' j i = el L j i) \<Longrightarrow> dotL L' k j m = dotL L k j m"
  unfolding dotL_def by (rule fold_upt_cong) simp

lemma sumsq_row_cong:
  "(\<And>k. k < m \<Longrightarrow> el L' j k = el L j k) \<Longrightarrow> sumsq_row L' j m = sumsq_row L j m"
  unfolding sumsq_row_def by (rule fold_upt_cong) simp

lemma pivotL_cong:
  assumes "\<And>k. k < j \<Longrightarrow> el L' j k = el L j k"
  shows "pivotL A L' j = pivotL A L j"
proof -
  have "sumsq_row L' j j = sumsq_row L j j"
    by (rule sumsq_row_cong) (use assms in simp)
  then show ?thesis by (simp add: pivotL_def)
qed

lemma rowL_ok_mono:
  assumes agree: "\<And>i q. i \<le> j \<Longrightarrow> q < n \<Longrightarrow> el L' i q = el L i q" and jn: "j < n"
    and ok: "rowL_ok A L n j"
  shows "rowL_ok A L' n j"
  unfolding rowL_ok_def
proof (intro conjI allI impI)
  fix k assume kj: "k < j"
  have "el L' j k = el L j k" using agree kj jn by simp
  also have "\<dots> = fdiv (fsub (el A j k) (dotL L k j k)) (el L k k)"
    using ok kj by (simp add: rowL_ok_def)
  also have "dotL L k j k = dotL L' k j k"
    by (rule dotL_cong [symmetric]) (use kj jn agree in simp)
  also have "el L k k = el L' k k" using agree kj jn by simp
  finally show "el L' j k = fdiv (fsub (el A j k) (dotL L' k j k)) (el L' k k)" .
next
  have "el L' j j = el L j j" using agree jn by simp
  also have "\<dots> = fsqrt (fmax (pivotL A L j) (Fin 0))"
    using ok by (simp add: rowL_ok_def)
  also have "pivotL A L j = pivotL A L' j"
    by (rule pivotL_cong [symmetric]) (use jn agree in simp)
  finally show "el L' j j = fsqrt (fmax (pivotL A L' j) (Fin 0))" .
next
  fix k assume k: "j < k \<and> k < n"
  then have "el L' j k = el L j k" using agree by simp
  also have "\<dots> = Fin 0" using ok k by (simp add: rowL_ok_def)
  finally show "el L' j k = Fin 0" .
qed

lemma zero_rowL_loop:
  assumes wfM: "wf_Dense M" and rM: "rows M = n" and cM: "cols M = n" and jn: "j < n"
  shows "\<exists>M'. for_loop [j + 1..<n] (\<lambda>k. SetAt (length h) j k (Fin 0)) (h @ [M]) = Inr (h @ [M']) \<and>
           wf_Dense M' \<and> rows M' = n \<and> cols M' = n \<and>
           (\<forall>i<n. \<forall>q<n. el M' i q = (if i = j \<and> j < q then Fin 0 else el M i q))"
proof -
  define I where "I k hs = (\<exists>M'. hs = h @ [M'] \<and> wf_Dense M' \<and> rows M' = n \<and> cols M' = n \<and>
           (\<forall>i<n. \<forall>q<n. el M' i q = (if i = j \<and> j < q \<and> q < k then Fin 0 else el M i q)))"
    for k hs
  have "\<exists>s'. for_loop [j + 1..<n] (\<lambda>k. SetAt (length h) j k (Fin 0)) (h @ [M]) = Inr s' \<and> I n s'"
  proof (rule for_loop_total)
    show "j + 1 \<le> n" using jn by simp
    have "\<forall>i<n. \<forall>q<n. el M i q = (if i = j \<and> j < q \<and> q < j + 1 then Fin 0 else el M i q)"
      by auto
    then show "I (j + 1) (h @ [M])"
      unfolding I_def using wfM rM cM by blast
  next
    fix k t assume k: "j + 1 \<le> k" "k < n" and Ik: "I k t"
    from Ik obtain M' where M'all: "t = h @ [M'] \<and> wf_Dense M' \<and> rows M' = n \<and> cols M' = n \<and>
      (\<forall>i<n. \<forall>q<n. el M' i q = (if i = j \<and> j < q \<and> q < k then Fin 0 else el M i q))"
      unfolding I_def ..
    then have M': "t = h @ [M']" "wf_Dense M'" "rows M' = n" "cols M' = n" by simp_all
    have M'5: "el M' i q = (if i = j \<and> j < q \<and> q < k then Fin 0 else el M i q)"
      if "i < n" "q < n" for i q using M'all that by simp
    have set: "SetAt (length h) j k (Fin 0) t = Inr (h @ [set_el M' j k (Fin 0)])"
      using M' jn k by (simp add: SetAt_new Dense_Set_ok)
    have "\<forall>i<n. \<forall>q<n. el (set_el M' j k (Fin 0)) i q =
            (if i = j \<and> j < q \<and> q < Suc k then Fin 0 else el M i q)"
    proof (intro allI impI)
      fix i q assume iq: "i < n" "q < n"
      have "el (set_el M' j k (Fin 0)) i q = (if i = j \<and> q = k then Fin 0 else el M' i q)"
        using M'(2-4) jn k iq by (simp add: el_set_el)
      also have "el M' i q = (if i = j \<and> j < q \<and> q < k then Fin 0 else el M i q)"
        using M'5 iq by simp
      finally show "el (set_el M' j k (Fin 0)) i q =
            (if i = j \<and> j < q \<and> q < Suc k then Fin 0 else el M i q)"
        using k by (auto simp: less_Suc_eq)
    qed
    moreover have "wf_Dense (set_el M' j k (Fin 0))" "rows (set_el M' j k (Fin 0)) = n"
      "cols (set_el M' j k (Fin 0)) = n"
      using M'(2-4) by simp_all
    ultimately have "I (Suc k) (h @ [set_el M' j k (Fin 0)])"
      unfolding I_def by blast
    then show "\<exists>t'. SetAt (length h) j k (Fin 0) t = Inr t' \<and> I (Suc k) t'"
      using set by blast
  qed
  then obtain s' where s': "for_loop [j + 1..<n] (\<lambda>k. SetAt (length h) j k (Fin 0)) (h @ [M]) = Inr s'"
    and "I n s'" by blast
  from this(2) obtain M' where M'all: "s' = h @ [M'] \<and> wf_Dense M' \<and> rows M' = n \<and> cols M' = n \<and>
      (\<forall>i<n. \<forall>q<n. el M' i q = (if i = j \<and> j < q \<and> q < n then Fin 0 else el M i q))"
    unfolding I_def ..
  have "\<forall>i<n. \<forall>q<n. el M' i q = (if i = j \<and> j < q then Fin 0 else el M i q)"
  proof (intro allI impI)
    fix i q assume iq: "i < n" "q < n"
    have "el M' i q = (if i = j \<and> j < q \<and> q < n then Fin 0 else el M i q)"
      using M'all iq by simp
    then show "el M' i q = (if i = j \<and> j < q then Fin 0 else el M i q)"
      using iq by simp
  qed
  then show ?thesis
    using s' M'all by blast
qed

lemma invL_k_init:
  "length rowj = n \<Longrightarrow> length (lRowk st) = n \<Longrightarrow> heap st = h @ [L] \<Longrightarrow>
   invL_k h A L n j (spd st) 0 (st\<lparr>lRowj := rowj, d := Fin 0\<rparr>)"
  by (simp add: invL_k_def sumsq_buf_def)

lemma sym_upto_Suc:
  "sym_upto A (Suc j) = (sym_upto A j \<and> (\<forall>k<j. feq (el A k j) (el A j k)))"
  by (auto simp: sym_upto_def less_Suc_eq)

lemma CholeskyL_j_step:
  assumes a: "a < length h" and wfA: "wf_Dense (h ! a)" and cA: "cols (h ! a) = n"
    and jA: "j < rows (h ! a)" and jn: "j < n"
    and inv: "invL_j h (h ! a) n j st"
  shows "\<exists>st'. CholeskyL_j a (length h) n j st = Inr st' \<and> invL_j h (h ! a) n (Suc j) st'"
proof -
  let ?A = "h ! a"
  from inv obtain L where Lall: "heap st = h @ [L] \<and> rows L = n \<and> cols L = n \<and> wf_Dense L \<and>
          length (lRowj st) = n \<and> length (lRowk st) = n \<and>
          (\<forall>j'<j. rowL_ok ?A L n j') \<and>
          (spd st \<longleftrightarrow> rows ?A = n \<and> sym_upto ?A j \<and> (\<forall>j'<j. fgt (pivotL ?A L j') (Fin 0)))"
    unfolding invL_j_def ..
  then have hp: "heap st = h @ [L]" and rL: "rows L = n" and cL: "cols L = n" and wfL: "wf_Dense L"
    and lenj: "length (lRowj st) = n" and lenk: "length (lRowk st) = n"
    and spd0: "spd st \<longleftrightarrow> rows ?A = n \<and> sym_upto ?A j \<and> (\<forall>j'<j. fgt (pivotL ?A L j') (Fin 0))"
    by simp_all
  have rows_ok: "rowL_ok ?A L n j'" if "j' < j" for j' using Lall that by simp
  \<comment> \<open>\<^verbatim>\<open>l.Row(lRowj, j)\<close>\<close>
  define rowj where "rowj = row_into (lRowj st) L j"
  have row: "Row (length h) (lRowj st) j (heap st) = Inr rowj"
    using wfL rL jn by (simp add: hp Row_new Dense_Row_ok rowj_def)
  have lrowj: "length rowj = n" by (simp add: rowj_def lenj)
  \<comment> \<open>the loop over \<open>k < j\<close>\<close>
  define st1 where "st1 = st\<lparr>lRowj := rowj, d := Fin 0\<rparr>"
  have "\<exists>st2. for_loop [0..<j] (CholeskyL_k a (length h) j) st1 = Inr st2 \<and>
          invL_k h ?A L n j (spd st) j st2"
  proof (rule for_loop_total [where I = "invL_k h (h ! a) L n j (spd st)"])
    show "0 \<le> j" by simp
    show "invL_k h ?A L n j (spd st) 0 st1"
      unfolding st1_def by (rule invL_k_init [OF lrowj lenk hp])
  next
    fix k t assume "0 \<le> k" "k < j" "invL_k h ?A L n j (spd st) k t"
    then show "\<exists>t'. CholeskyL_k a (length h) j k t = Inr t' \<and> invL_k h ?A L n j (spd st) (Suc k) t'"
      using CholeskyL_k_step [OF a wfA cA jA wfL rL cL _ jn] by simp
  qed
  then obtain st2 where loop: "for_loop [0..<j] (CholeskyL_k a (length h) j) st1 = Inr st2"
    and inv2: "invL_k h ?A L n j (spd st) j st2" by blast
  define row2 where "row2 = lRowj st2"
  have hp2: "heap st2 = h @ [L]" and len2: "length row2 = n"
    and lenk2: "length (lRowk st2) = n"
    and d2: "d st2 = sumsq_buf row2 j"
    and spd2: "spd st2 \<longleftrightarrow> spd st \<and> (\<forall>k'<j. feq (el ?A k' j) (el ?A j k'))"
    using inv2 by (simp_all add: invL_k_def row2_def)
  have ent2: "row2 ! k = fdiv (fsub (el ?A j k) (dot_buf L k row2 k)) (el L k k)" if "k < j" for k
    using inv2 that by (simp add: invL_k_def row2_def)
  \<comment> \<open>\<^verbatim>\<open>l.SetRow(j, lRowj)\<close>\<close>
  define L1 where "L1 = set_row L j row2"
  have L1: "wf_Dense L1" "rows L1 = n" "cols L1 = n"
    using wfL rL cL by (simp_all add: L1_def)
  have setrow: "SetRow (length h) j row2 (heap st2) = Inr (h @ [L1])"
    using wfL rL jn by (simp add: hp2 SetRow_new Dense_SetRow_ok L1_def)
  have elL1: "el L1 i q = (if i = j then row2 ! q else el L i q)" if "i < n" "q < n" for i q
    using that wfL rL cL len2 by (simp add: L1_def el_set_row)
  \<comment> \<open>the pivot and the diagonal entry\<close>
  have ajj: "At a j j (h @ [L1]) = Inr (el ?A j j)"
    using a wfA cA jA jn by (simp add: At_old Dense_At_ok)
  define d' where "d' = fsub (el ?A j j) (d st2)"
  define v where "v = fsqrt (fmax d' (Fin 0))"
  define L2 where "L2 = set_el L1 j j v"
  have L2: "wf_Dense L2" "rows L2 = n" "cols L2 = n"
    using L1 by (simp_all add: L2_def)
  have setd: "SetAt (length h) j j v (h @ [L1]) = Inr (h @ [L2])"
    using L1 jn by (simp add: SetAt_new Dense_Set_ok L2_def)
  have elL2: "el L2 i q = (if i = j \<and> q = j then v else el L1 i q)" if "i < n" "q < n" for i q
    using that L1 jn by (simp add: L2_def el_set_el)
  \<comment> \<open>the zeros right of the diagonal\<close>
  obtain L3 where zero: "for_loop [j + 1..<n] (\<lambda>k. SetAt (length h) j k (Fin 0)) (h @ [L2]) = Inr (h @ [L3])"
    and L3: "wf_Dense L3" "rows L3 = n" "cols L3 = n"
    and elL3': "\<forall>i<n. \<forall>q<n. el L3 i q = (if i = j \<and> j < q then Fin 0 else el L2 i q)"
    using zero_rowL_loop [OF L2 jn, of h] by blast
  have zero': "for_loop [Suc j..<n] (\<lambda>k. SetAt (length h) j k (Fin 0)) (h @ [L2]) = Inr (h @ [L3])"
    using zero by simp
  have elL3: "el L3 i q = (if i = j then (if q < j then row2 ! q else if q = j then v else Fin 0)
                           else el L i q)" if "i < n" "q < n" for i q
  proof -
    have "el L3 i q = (if i = j \<and> j < q then Fin 0 else el L2 i q)" using elL3' that by simp
    then show ?thesis using that by (auto simp: elL2 elL1)
  qed
  define st' where "st' = st2\<lparr>heap := h @ [L3], spd := (spd st2 \<and> fgt d' (Fin 0)), d := d'\<rparr>"
  have res: "CholeskyL_j a (length h) n j st = Inr st'"
    unfolding CholeskyL_j_def
    by (simp add: row loop [unfolded st1_def] setrow [unfolded row2_def] ajj
        setd [unfolded v_def d'_def] zero' Let_def st'_def d'_def)
  \<comment> \<open>the new row is the row of the factor\<close>
  have piv: "pivotL ?A L3 j = d'"
  proof -
    have "sumsq_row L3 j j = sumsq_buf row2 j"
      unfolding sumsq_row_def sumsq_buf_def by (rule fold_upt_cong) (use jn elL3 in simp)
    then show ?thesis by (simp add: pivotL_def d'_def d2)
  qed
  have rowj_ok: "rowL_ok ?A L3 n j"
    unfolding rowL_ok_def
  proof (intro conjI allI impI)
    fix k assume kj: "k < j"
    have "dotL L3 k j k = dot_buf L k row2 k"
      unfolding dotL_def dot_buf_def by (rule fold_upt_cong) (use kj jn elL3 in simp)
    moreover have "el L3 k k = el L k k" using kj jn elL3 by simp
    moreover have "el L3 j k = row2 ! k" using kj jn elL3 by simp
    ultimately show "el L3 j k = fdiv (fsub (el ?A j k) (dotL L3 k j k)) (el L3 k k)"
      using ent2 [OF kj] by simp
  next
    show "el L3 j j = fsqrt (fmax (pivotL ?A L3 j) (Fin 0))"
      using jn elL3 by (simp add: piv v_def)
  next
    fix k assume "j < k \<and> k < n"
    then show "el L3 j k = Fin 0" using jn elL3 by simp
  qed
  have old_ok: "rowL_ok ?A L3 n j'" if "j' < j" for j'
  proof (rule rowL_ok_mono [OF _ _ rows_ok [OF that]])
    show "j' < n" using that jn by simp
    fix i q assume "i \<le> j'" "q < n"
    then show "el L3 i q = el L i q" using that jn elL3 by simp
  qed
  have old_piv: "pivotL ?A L3 j' = pivotL ?A L j'" if "j' < j" for j'
    by (rule pivotL_cong) (use that jn elL3 in simp)
  have all_ok: "\<forall>j'<Suc j. rowL_ok ?A L3 n j'"
    using old_ok rowj_ok by (auto simp: less_Suc_eq)
  have "(\<forall>j'<Suc j. fgt (pivotL ?A L3 j') (Fin 0)) \<longleftrightarrow>
        (\<forall>j'<j. fgt (pivotL ?A L j') (Fin 0)) \<and> fgt d' (Fin 0)"
    using old_piv piv by (auto simp: less_Suc_eq)
  then have spd': "spd st' \<longleftrightarrow> rows ?A = n \<and> sym_upto ?A (Suc j) \<and>
        (\<forall>j'<Suc j. fgt (pivotL ?A L3 j') (Fin 0))"
    unfolding sym_upto_Suc using spd2 spd0 by (auto simp: st'_def)
  have "invL_j h ?A n (Suc j) st'"
    unfolding invL_j_def
    by (rule exI [of _ L3]) (use L3 all_ok spd' len2 lenk2 in \<open>simp add: st'_def row2_def\<close>)
  then show ?thesis using res by blast
qed

section \<open>The run of \<^verbatim>\<open>CholeskyL\<close>\<close>

lemma invL_j_init:
  "invL_j h A n 0 \<lparr>heap = h @ [\<lparr>rows = n, cols = n, data = replicate (n * n) (Fin 0)\<rparr>],
      lRowj = replicate n (Fin 0), lRowk = replicate n (Fin 0), spd = (rows A = n), d = Fin 0\<rparr>"
  unfolding invL_j_def
  by (rule exI [of _ "\<lparr>rows = n, cols = n, data = replicate (n * n) (Fin 0)\<rparr>"])
     (simp add: wf_Dense_def sym_upto_def)

lemma CholeskyL_loop:
  assumes a: "a < length h" and wfA: "wf_Dense (h ! a)" and cA: "cols (h ! a) = n"
    and mn: "m \<le> rows (h ! a)" "m \<le> n"
  shows "\<exists>st. for_loop [0..<m] (CholeskyL_j a (length h) n)
           \<lparr>heap = h @ [\<lparr>rows = n, cols = n, data = replicate (n * n) (Fin 0)\<rparr>],
            lRowj = replicate n (Fin 0), lRowk = replicate n (Fin 0),
            spd = (rows (h ! a) = n), d = Fin 0\<rparr> = Inr st \<and> invL_j h (h ! a) n m st"
proof (rule for_loop_total [where I = "invL_j h (h ! a) n"])
  show "0 \<le> m" by simp
  show "invL_j h (h ! a) n 0 \<lparr>heap = h @ [\<lparr>rows = n, cols = n, data = replicate (n * n) (Fin 0)\<rparr>],
            lRowj = replicate n (Fin 0), lRowk = replicate n (Fin 0),
            spd = (rows (h ! a) = n), d = Fin 0\<rparr>"
    by (rule invL_j_init)
next
  fix j t assume "0 \<le> j" "j < m" "invL_j h (h ! a) n j t"
  then show "\<exists>t'. CholeskyL_j a (length h) n j t = Inr t' \<and> invL_j h (h ! a) n (Suc j) t'"
    using CholeskyL_j_step [OF a wfA cA, of j t] mn by simp
qed

text \<open>On a well-formed matrix with at least as many rows as columns \<^verbatim>\<open>CholeskyL\<close>
  returns; the factor is appended to the store and satisfies the equations of its rows.\<close>

lemma CholeskyL_run:
  assumes a: "a < length h" and wfA: "wf_Dense (h ! a)" and le: "cols (h ! a) \<le> rows (h ! a)"
  shows "\<exists>L sp. CholeskyL a h = Inr (length h, sp, h @ [L]) \<and>
           rows L = cols (h ! a) \<and> cols L = cols (h ! a) \<and> wf_Dense L \<and>
           (\<forall>j<cols (h ! a). rowL_ok (h ! a) L (cols (h ! a)) j) \<and>
           (sp \<longleftrightarrow> rows (h ! a) = cols (h ! a) \<and> sym_upto (h ! a) (cols (h ! a)) \<and>
                  (\<forall>j<cols (h ! a). fgt (pivotL (h ! a) L j) (Fin 0)))"
proof -
  let ?A = "h ! a" and ?n = "cols (h ! a)"
  obtain st where loop: "for_loop [0..<?n] (CholeskyL_j a (length h) ?n)
           \<lparr>heap = h @ [\<lparr>rows = ?n, cols = ?n, data = replicate (?n * ?n) (Fin 0)\<rparr>],
            lRowj = replicate ?n (Fin 0), lRowk = replicate ?n (Fin 0),
            spd = (rows ?A = ?n), d = Fin 0\<rparr> = Inr st" and inv: "invL_j h ?A ?n ?n st"
    using CholeskyL_loop [OF a wfA refl le order_refl] by blast
  from inv obtain L where Lall: "heap st = h @ [L] \<and> rows L = ?n \<and> cols L = ?n \<and> wf_Dense L \<and>
          length (lRowj st) = ?n \<and> length (lRowk st) = ?n \<and>
          (\<forall>j'<?n. rowL_ok ?A L ?n j') \<and>
          (spd st \<longleftrightarrow> rows ?A = ?n \<and> sym_upto ?A ?n \<and> (\<forall>j'<?n. fgt (pivotL ?A L j') (Fin 0)))"
    unfolding invL_j_def ..
  have res: "CholeskyL a h = Inr (length h, spd st, heap st)"
    by (simp add: CholeskyL_def Dims_ok [OF a] NewDense_def loop)
  show ?thesis
    by (rule exI [of _ L], rule exI [of _ "spd st"]) (use res Lall in simp)
qed

text \<open>With fewer rows than columns the round \<open>j = rows a\<close> reads outside \<open>a\<close>.\<close>

lemma CholeskyL_j_panics:
  assumes a: "a < length h" and wfA: "wf_Dense (h ! a)" and cA: "cols (h ! a) = n"
    and lt: "rows (h ! a) < n"
    and inv: "invL_j h (h ! a) n (rows (h ! a)) st"
  shows "CholeskyL_j a (length h) n (rows (h ! a)) st = Inl ErrIndexOutOfRange"
proof -
  let ?A = "h ! a" and ?m = "rows (h ! a)"
  from inv obtain L where Lall: "heap st = h @ [L] \<and> rows L = n \<and> cols L = n \<and> wf_Dense L \<and>
          length (lRowj st) = n \<and> length (lRowk st) = n \<and>
          (\<forall>j'<?m. rowL_ok ?A L n j') \<and>
          (spd st \<longleftrightarrow> rows ?A = n \<and> sym_upto ?A ?m \<and> (\<forall>j'<?m. fgt (pivotL ?A L j') (Fin 0)))"
    unfolding invL_j_def ..
  then have hp: "heap st = h @ [L]" and rL: "rows L = n" and cL: "cols L = n" and wfL: "wf_Dense L"
    by simp_all
  define rowj where "rowj = row_into (lRowj st) L ?m"
  define st1 where "st1 = st\<lparr>lRowj := rowj, d := Fin 0\<rparr>"
  have row: "Row (length h) (lRowj st) ?m (heap st) = Inr rowj"
    using wfL rL lt by (simp add: hp Row_new Dense_Row_ok rowj_def)
  show ?thesis
  proof (cases "?m = 0")
    case True
    have "SetRow (length h) 0 (lRowj st1) (heap st1) = Inr (h @ [set_row L 0 (lRowj st1)])"
      using wfL rL lt True by (simp add: st1_def hp SetRow_new Dense_SetRow_ok)
    moreover have "At a 0 0 (h @ [set_row L 0 (lRowj st1)]) = Inl ErrIndexOutOfRange"
      using a True by (simp add: At_row_out)
    ultimately show ?thesis
      using True row by (simp add: CholeskyL_j_def st1_def)
  next
    case False
    then have upt: "[0..<?m] = 0 # [1..<?m]" by (simp add: upt_rec)
    have "Row (length h) (lRowk st1) 0 (heap st1) = Inr (row_into (lRowk st1) L 0)"
      using wfL rL lt by (simp add: st1_def hp Row_new Dense_Row_ok)
    moreover have "At a ?m 0 (heap st1) = Inl ErrIndexOutOfRange"
      using a by (simp add: st1_def hp At_row_out)
    ultimately have "CholeskyL_k a (length h) ?m 0 st1 = Inl ErrIndexOutOfRange"
      by (simp add: CholeskyL_k_def)
    then have "for_loop [0..<?m] (CholeskyL_k a (length h) ?m) st1 = Inl ErrIndexOutOfRange"
      by (simp add: upt)
    then show ?thesis
      using row by (simp add: CholeskyL_j_def st1_def)
  qed
qed

lemma CholeskyL_panics:
  assumes a: "a < length h" and wfA: "wf_Dense (h ! a)" and lt: "rows (h ! a) < cols (h ! a)"
  shows "CholeskyL a h = Inl ErrIndexOutOfRange"
proof -
  let ?A = "h ! a" and ?n = "cols (h ! a)" and ?m = "rows (h ! a)"
  let ?st0 = "\<lparr>heap = h @ [\<lparr>rows = ?n, cols = ?n, data = replicate (?n * ?n) (Fin 0)\<rparr>],
            lRowj = replicate ?n (Fin 0), lRowk = replicate ?n (Fin 0),
            spd = (rows ?A = ?n), d = Fin 0\<rparr>"
  obtain st where loop: "for_loop [0..<?m] (CholeskyL_j a (length h) ?n) ?st0 = Inr st"
    and inv: "invL_j h ?A ?n ?m st"
    using CholeskyL_loop [OF a wfA refl order_refl] lt by auto
  have "[0..<?n] = [0..<?m] @ ?m # [Suc ?m..<?n]"
    using lt by (metis le_add_diff_inverse less_imp_le_nat upt_add_eq_append upt_conv_Cons zero_le)
  then have "for_loop [0..<?n] (CholeskyL_j a (length h) ?n) ?st0 =
        bindE (CholeskyL_j a (length h) ?n ?m st) (for_loop [Suc ?m..<?n] (CholeskyL_j a (length h) ?n))"
    by (simp add: for_loop_append loop)
  also have "\<dots> = Inl ErrIndexOutOfRange"
    by (simp add: CholeskyL_j_panics [OF a wfA refl lt inv])
  finally show ?thesis
    by (simp add: CholeskyL_def Dims_ok [OF a] NewDense_def)
qed

lemma CholeskyL_nil: "\<not> a < length h \<Longrightarrow> CholeskyL a h = Inl ErrNilPointer"
  by (simp add: CholeskyL_def Dims_nil)

text \<open>What a returning call tells about its argument.\<close>

lemma CholeskyL_returns:
  assumes "wf_Dense (h ! a)" "CholeskyL a h = Inr res"
  shows "a < length h \<and> cols (h ! a) \<le> rows (h ! a)"
proof -
  have "a < length h" using assms(2) CholeskyL_nil [of a h] by auto
  moreover have "cols (h ! a) \<le> rows (h ! a)"
    using assms CholeskyL_panics [OF \<open>a < length h\<close> assms(1)] by (cases "rows (h ! a) < cols (h ! a)") auto
  ultimately show ?thesis by simp
qed

lemma CholeskyL_result:
  assumes wf: "wf_Dense (h ! a)" and eq: "CholeskyL a h = Inr (l, sp, h')"
  shows "l = length h" and "h' = h @ [h' ! l]"
    and "rows (h' ! l) = cols (h ! a)" and "cols (h' ! l) = cols (h ! a)"
    and "wf_Dense (h' ! l)"
    and "\<forall>j<cols (h ! a). rowL_ok (h ! a) (h' ! l) (cols (h ! a)) j"
    and "sp \<longleftrightarrow> rows (h ! a) = cols (h ! a) \<and> sym_upto (h ! a) (cols (h ! a)) \<and>
                (\<forall>j<cols (h ! a). fgt (pivotL (h ! a) (h' ! l) j) (Fin 0))"
proof -
  have a: "a < length h" and le: "cols (h ! a) \<le> rows (h ! a)"
    using CholeskyL_returns [OF wf eq] by simp_all
  obtain M sp0 where run: "CholeskyL a h = Inr (length h, sp0, h @ [M])"
    and rest: "rows M = cols (h ! a) \<and> cols M = cols (h ! a) \<and> wf_Dense M \<and>
           (\<forall>j<cols (h ! a). rowL_ok (h ! a) M (cols (h ! a)) j) \<and>
           (sp0 \<longleftrightarrow> rows (h ! a) = cols (h ! a) \<and> sym_upto (h ! a) (cols (h ! a)) \<and>
                  (\<forall>j<cols (h ! a). fgt (pivotL (h ! a) M j) (Fin 0)))"
    using CholeskyL_run [OF a wf le] by blast
  have l: "l = length h" and sp: "sp = sp0" and h': "h' = h @ [M]"
    using eq run by simp_all
  have M: "h' ! l = M" by (simp add: l h')
  show "l = length h" by (rule l)
  show "h' = h @ [h' ! l]" unfolding M by (rule h')
  show "rows (h' ! l) = cols (h ! a)" "cols (h' ! l) = cols (h ! a)" "wf_Dense (h' ! l)"
    unfolding M using rest by simp_all
  show "\<forall>j<cols (h ! a). rowL_ok (h ! a) (h' ! l) (cols (h ! a)) j"
    unfolding M using rest by simp
  show "sp \<longleftrightarrow> rows (h ! a) = cols (h ! a) \<and> sym_upto (h ! a) (cols (h ! a)) \<and>
                (\<forall>j<cols (h ! a). fgt (pivotL (h ! a) (h' ! l) j) (Fin 0))"
    unfolding M sp using rest by simp
qed

lemma rowL_ok_diag: "rowL_ok A L n j \<Longrightarrow> el L j j = fsqrt (fmax (pivotL A L j) (Fin 0))"
  by (simp add: rowL_ok_def)

lemma rowL_ok_upper: "rowL_ok A L n j \<Longrightarrow> j < k \<Longrightarrow> k < n \<Longrightarrow> el L j k = Fin 0"
  by (simp add: rowL_ok_def)

section \<open>The rounds of \<^verbatim>\<open>CholeskyR\<close>\<close>

lemma subR_cong:
  assumes "\<And>i. i < m \<Longrightarrow> el R' i k = el R i k \<and> el R' i j = el R i j"
  shows "subR A R' k j m = subR A R k j m"
  unfolding subR_def by (rule fold_upt_cong) (use assms in simp)

lemma sumsq_col_cong:
  assumes "\<And>k. k < m \<Longrightarrow> el R' k j = el R k j"
  shows "sumsq_col R' j m = sumsq_col R j m"
  unfolding sumsq_col_def by (rule fold_upt_cong) (use assms in simp)

lemma sumsq_col_Suc:
  "sumsq_col R j (Suc k) = fadd (sumsq_col R j k) (fmul (el R k j) (el R k j))"
  by (simp add: sumsq_col_def)

lemma pivotR_cong:
  assumes "\<And>k. k < j \<Longrightarrow> el R' k j = el R k j"
  shows "pivotR A R' j = pivotR A R j"
proof -
  have "sumsq_col R' j j = sumsq_col R j j"
    by (rule sumsq_col_cong) (use assms in simp)
  then show ?thesis by (simp add: pivotR_def)
qed

lemma colR_ok_mono:
  assumes agree: "\<And>i q. i < n \<Longrightarrow> q \<le> j \<Longrightarrow> el R' i q = el R i q" and jn: "j < n"
    and ok: "colR_ok A R n j"
  shows "colR_ok A R' n j"
  unfolding colR_ok_def
proof (intro conjI allI impI)
  fix k assume kj: "k < j"
  have "el R' k j = el R k j" using agree kj jn by simp
  also have "\<dots> = fdiv (subR A R k j k) (el R k k)"
    using ok kj by (simp add: colR_ok_def)
  also have "subR A R k j k = subR A R' k j k"
    by (rule subR_cong [symmetric]) (use kj jn agree in simp)
  also have "el R k k = el R' k k" using agree kj jn by simp
  finally show "el R' k j = fdiv (subR A R' k j k) (el R' k k)" .
next
  have "el R' j j = el R j j" using agree jn by simp
  also have "\<dots> = fsqrt (fmax (pivotR A R j) (Fin 0))"
    using ok by (simp add: colR_ok_def)
  also have "pivotR A R j = pivotR A R' j"
    by (rule pivotR_cong [symmetric]) (use jn agree in simp)
  finally show "el R' j j = fsqrt (fmax (pivotR A R' j) (Fin 0))" .
next
  fix k assume k: "j < k \<and> k < n"
  then have "el R' k j = el R k j" using agree by simp
  also have "\<dots> = Fin 0" using ok k by (simp add: colR_ok_def)
  finally show "el R' k j = Fin 0" .
qed

lemma zero_colR_loop:
  assumes wfM: "wf_Dense M" and rM: "rows M = n" and cM: "cols M = n" and jn: "j < n"
  shows "\<exists>M'. for_loop [j + 1..<n] (\<lambda>k. SetAt (length h) k j (Fin 0)) (h @ [M]) = Inr (h @ [M']) \<and>
           wf_Dense M' \<and> rows M' = n \<and> cols M' = n \<and>
           (\<forall>i<n. \<forall>q<n. el M' i q = (if q = j \<and> j < i then Fin 0 else el M i q))"
proof -
  define I where "I k hs = (\<exists>M'. hs = h @ [M'] \<and> wf_Dense M' \<and> rows M' = n \<and> cols M' = n \<and>
           (\<forall>i<n. \<forall>q<n. el M' i q = (if q = j \<and> j < i \<and> i < k then Fin 0 else el M i q)))"
    for k hs
  have "\<exists>s'. for_loop [j + 1..<n] (\<lambda>k. SetAt (length h) k j (Fin 0)) (h @ [M]) = Inr s' \<and> I n s'"
  proof (rule for_loop_total [where I = I])
    show "j + 1 \<le> n" using jn by simp
    have "\<forall>i<n. \<forall>q<n. el M i q = (if q = j \<and> j < i \<and> i < j + 1 then Fin 0 else el M i q)"
      by auto
    then show "I (j + 1) (h @ [M])"
      unfolding I_def using wfM rM cM by blast
  next
    fix k t assume k: "j + 1 \<le> k" "k < n" and Ik: "I k t"
    from Ik obtain M' where M'all: "t = h @ [M'] \<and> wf_Dense M' \<and> rows M' = n \<and> cols M' = n \<and>
      (\<forall>i<n. \<forall>q<n. el M' i q = (if q = j \<and> j < i \<and> i < k then Fin 0 else el M i q))"
      unfolding I_def ..
    then have M': "t = h @ [M']" "wf_Dense M'" "rows M' = n" "cols M' = n" by simp_all
    have M'5: "el M' i q = (if q = j \<and> j < i \<and> i < k then Fin 0 else el M i q)"
      if "i < n" "q < n" for i q using M'all that by simp
    have set: "SetAt (length h) k j (Fin 0) t = Inr (h @ [set_el M' k j (Fin 0)])"
      using M' jn k by (simp add: SetAt_new Dense_Set_ok)
    have "\<forall>i<n. \<forall>q<n. el (set_el M' k j (Fin 0)) i q =
            (if q = j \<and> j < i \<and> i < Suc k then Fin 0 else el M i q)"
    proof (intro allI impI)
      fix i q assume iq: "i < n" "q < n"
      have "el (set_el M' k j (Fin 0)) i q = (if i = k \<and> q = j then Fin 0 else el M' i q)"
        using M'(2-4) jn k iq by (simp add: el_set_el)
      also have "el M' i q = (if q = j \<and> j < i \<and> i < k then Fin 0 else el M i q)"
        using M'5 iq by simp
      finally show "el (set_el M' k j (Fin 0)) i q =
            (if q = j \<and> j < i \<and> i < Suc k then Fin 0 else el M i q)"
        using k by (auto simp: less_Suc_eq)
    qed
    moreover have "wf_Dense (set_el M' k j (Fin 0))" "rows (set_el M' k j (Fin 0)) = n"
      "cols (set_el M' k j (Fin 0)) = n"
      using M'(2-4) by simp_all
    ultimately have "I (Suc k) (h @ [set_el M' k j (Fin 0)])"
      unfolding I_def by blast
    then show "\<exists>t'. SetAt (length h) k j (Fin 0) t = Inr t' \<and> I (Suc k) t'"
      using set by blast
  qed
  then obtain s' where s': "for_loop [j + 1..<n] (\<lambda>k. SetAt (length h) k j (Fin 0)) (h @ [M]) = Inr s'"
    and "I n s'" by blast
  from this(2) obtain M' where M'all: "s' = h @ [M'] \<and> wf_Dense M' \<and> rows M' = n \<and> cols M' = n \<and>
      (\<forall>i<n. \<forall>q<n. el M' i q = (if q = j \<and> j < i \<and> i < n then Fin 0 else el M i q))"
    unfolding I_def ..
  have "\<forall>i<n. \<forall>q<n. el M' i q = (if q = j \<and> j < i then Fin 0 else el M i q)"
  proof (intro allI impI)
    fix i q assume iq: "i < n" "q < n"
    have "el M' i q = (if q = j \<and> j < i \<and> i < n then Fin 0 else el M i q)"
      using M'all iq by simp
    then show "el M' i q = (if q = j \<and> j < i then Fin 0 else el M i q)"
      using iq by simp
  qed
  then show ?thesis
    using s' M'all by blast
qed

lemma CholeskyR_k_step:
  assumes a: "a < length h" and wfA: "wf_Dense (h ! a)" and cA: "cols (h ! a) = n"
    and kA: "k < rows (h ! a)" and jA: "sp \<longrightarrow> j < rows (h ! a)"
    and kj: "k < j" and jn: "j < n"
    and inv: "invR_k h (h ! a) R0 n j sp k st"
  shows "\<exists>st'. CholeskyR_k a (length h) j k st = Inr st' \<and> invR_k h (h ! a) R0 n j sp (Suc k) st'"
proof -
  let ?A = "h ! a"
  from inv obtain R where Rall: "heapR st = h @ [R] \<and> rows R = n \<and> cols R = n \<and> wf_Dense R \<and>
          (\<forall>i<n. \<forall>q<n. q \<noteq> j \<longrightarrow> el R i q = el R0 i q) \<and>
          (\<forall>k'<k. el R k' j = fdiv (subR ?A R k' j k') (el R k' k')) \<and>
          dR st = sumsq_col R j k \<and>
          (spdR st \<longleftrightarrow> sp \<and> (\<forall>k'<k. feq (el ?A k' j) (el ?A j k')))"
    unfolding invR_k_def ..
  then have hp: "heapR st = h @ [R]" and rR: "rows R = n" and cR: "cols R = n" and wfR: "wf_Dense R"
    and dd: "dR st = sumsq_col R j k"
    and sp: "spdR st \<longleftrightarrow> sp \<and> (\<forall>k'<k. feq (el ?A k' j) (el ?A j k'))"
    by simp_all
  have frame: "el R i q = el R0 i q" if "i < n" "q < n" "q \<noteq> j" for i q using Rall that by simp
  have ent: "el R k' j = fdiv (subR ?A R k' j k') (el R k' k')" if "k' < k" for k'
    using Rall that by simp
  have kn: "k < n" using kj jn by simp
  have akj: "At a k j (h @ [M]) = Inr (el ?A k j)" for M
    using a wfA cA kA jn by (simp add: At_old Dense_At_ok)
  have ajk: "At a j k (h @ [M]) = Inr (el ?A j k)" if "spdR st" for M
    using a wfA cA jA kn that sp by (simp add: At_old Dense_At_ok)
  have "for_loop [0..<k] (CholeskyR_i (length h) j k (heapR st)) (el ?A k j) =
        Inr (fold (\<lambda>i s. fsub s (fmul (el R i k) (el R i j))) [0..<k] (el ?A k j))"
    by (rule for_loop_pure)
       (use kn jn wfR rR cR in \<open>simp add: CholeskyR_i_def hp At_new Dense_At_ok\<close>)
  then have inner: "for_loop [0..<k] (CholeskyR_i (length h) j k (heapR st)) (el ?A k j) =
        Inr (subR ?A R k j k)"
    by (simp add: subR_def)
  have rkk: "At (length h) k k (heapR st) = Inr (el R k k)"
    using wfR rR cR kn by (simp add: hp At_new Dense_At_ok)
  define s' where "s' = fdiv (subR ?A R k j k) (el R k k)"
  define R' where "R' = set_el R k j s'"
  have R': "wf_Dense R'" "rows R' = n" "cols R' = n"
    using wfR rR cR by (simp_all add: R'_def)
  have set: "SetAt (length h) k j s' (heapR st) = Inr (h @ [R'])"
    using wfR rR cR kn jn by (simp add: hp SetAt_new Dense_Set_ok R'_def)
  have elR': "el R' i q = (if i = k \<and> q = j then s' else el R i q)" if "i < n" "q < n" for i q
    using that wfR rR cR kn jn by (simp add: R'_def el_set_el)
  define st' where "st' = st\<lparr>heapR := h @ [R'],
      spdR := (spdR st \<and> feq (el ?A k j) (el ?A j k)), dR := fadd (dR st) (fmul s' s')\<rparr>"
  have res: "CholeskyR_k a (length h) j k st = Inr st'"
    by (cases "spdR st")
       (simp_all add: CholeskyR_k_def Let_def akj [of R, folded hp] inner rkk
          set [unfolded s'_def] akj ajk st'_def s'_def)
  have f1: "\<forall>i<n. \<forall>q<n. q \<noteq> j \<longrightarrow> el R' i q = el R0 i q"
    using frame by (simp add: elR')
  have sub_eq: "subR ?A R' k' j k' = subR ?A R k' j k'" if "k' \<le> k" for k'
    by (rule subR_cong) (use that kn kj jn in \<open>simp add: elR'\<close>)
  have e1: "\<forall>k'<Suc k. el R' k' j = fdiv (subR ?A R' k' j k') (el R' k' k')"
  proof (intro allI impI)
    fix k' assume k': "k' < Suc k"
    show "el R' k' j = fdiv (subR ?A R' k' j k') (el R' k' k')"
    proof (cases "k' = k")
      case True
      then show ?thesis
        using kn kj jn by (simp add: elR' sub_eq s'_def)
    next
      case False
      then have lt: "k' < k" using k' by simp
      then show ?thesis
        using kn kj jn ent [OF lt] by (simp add: elR' sub_eq)
    qed
  qed
  have "sumsq_col R' j k = sumsq_col R j k"
    by (rule sumsq_col_cong) (use kn jn in \<open>simp add: elR'\<close>)
  then have e2: "dR st' = sumsq_col R' j (Suc k)"
    using kn jn by (simp add: st'_def sumsq_col_Suc dd elR')
  have e3: "spdR st' \<longleftrightarrow> sp \<and> (\<forall>k'<Suc k. feq (el ?A k' j) (el ?A j k'))"
    using sp by (auto simp: st'_def less_Suc_eq)
  have "invR_k h ?A R0 n j sp (Suc k) st'"
    unfolding invR_k_def
    by (rule exI [of _ R']) (use R' f1 e1 e2 e3 in \<open>simp add: st'_def\<close>)
  then show ?thesis using res by blast
qed

lemma invR_k_init:
  assumes "heapR st = h @ [R]" "rows R = n" "cols R = n" "wf_Dense R"
  shows "invR_k h A R n j (spdR st) 0 (st\<lparr>dR := Fin 0\<rparr>)"
  unfolding invR_k_def
  by (rule exI [of _ R]) (use assms in \<open>simp add: sumsq_col_def\<close>)

lemma CholeskyR_k_loop:
  assumes a: "a < length h" and wfA: "wf_Dense (h ! a)" and cA: "cols (h ! a) = n"
    and jA: "j \<le> rows (h ! a)" "spdR st \<longrightarrow> j < rows (h ! a)" and jn: "j < n"
    and hp: "heapR st = h @ [R]" and R: "rows R = n" "cols R = n" "wf_Dense R"
  shows "\<exists>st2. for_loop [0..<j] (CholeskyR_k a (length h) j) (st\<lparr>dR := Fin 0\<rparr>) = Inr st2 \<and>
          invR_k h (h ! a) R n j (spdR st) j st2"
proof (rule for_loop_total [where I = "invR_k h (h ! a) R n j (spdR st)"])
  show "0 \<le> j" by simp
  show "invR_k h (h ! a) R n j (spdR st) 0 (st\<lparr>dR := Fin 0\<rparr>)"
    by (rule invR_k_init [OF hp R])
next
  fix k t assume k: "0 \<le> k" "k < j" and inv: "invR_k h (h ! a) R n j (spdR st) k t"
  have "k < rows (h ! a)" using k jA by simp
  then show "\<exists>t'. CholeskyR_k a (length h) j k t = Inr t' \<and>
          invR_k h (h ! a) R n j (spdR st) (Suc k) t'"
    using CholeskyR_k_step [OF a wfA cA _ jA(2) k(2) jn inv] by simp
qed

lemma CholeskyR_j_step:
  assumes a: "a < length h" and wfA: "wf_Dense (h ! a)" and cA: "cols (h ! a) = n"
    and jA: "j < rows (h ! a)" and jn: "j < n"
    and inv: "invR_j h (h ! a) n j st"
  shows "\<exists>st'. CholeskyR_j a (length h) n j st = Inr st' \<and> invR_j h (h ! a) n (Suc j) st'"
proof -
  let ?A = "h ! a"
  from inv obtain R0 where R0all: "heapR st = h @ [R0] \<and> rows R0 = n \<and> cols R0 = n \<and> wf_Dense R0 \<and>
          (\<forall>j'<j. colR_ok ?A R0 n j') \<and>
          (spdR st \<longleftrightarrow> rows ?A = n \<and> sym_upto ?A j \<and> (\<forall>j'<j. fgt (pivotR ?A R0 j') (Fin 0)))"
    unfolding invR_j_def ..
  then have hp: "heapR st = h @ [R0]" and R0: "rows R0 = n" "cols R0 = n" "wf_Dense R0"
    and spd0: "spdR st \<longleftrightarrow> rows ?A = n \<and> sym_upto ?A j \<and> (\<forall>j'<j. fgt (pivotR ?A R0 j') (Fin 0))"
    by simp_all
  have cols_ok: "colR_ok ?A R0 n j'" if "j' < j" for j' using R0all that by simp
  \<comment> \<open>the loop over \<open>k < j\<close>\<close>
  obtain st2 where loop: "for_loop [0..<j] (CholeskyR_k a (length h) j) (st\<lparr>dR := Fin 0\<rparr>) = Inr st2"
    and inv2: "invR_k h ?A R0 n j (spdR st) j st2"
    using CholeskyR_k_loop [OF a wfA cA _ _ jn hp R0] jA by auto
  from inv2 obtain R2 where R2all: "heapR st2 = h @ [R2] \<and> rows R2 = n \<and> cols R2 = n \<and> wf_Dense R2 \<and>
          (\<forall>i<n. \<forall>q<n. q \<noteq> j \<longrightarrow> el R2 i q = el R0 i q) \<and>
          (\<forall>k'<j. el R2 k' j = fdiv (subR ?A R2 k' j k') (el R2 k' k')) \<and>
          dR st2 = sumsq_col R2 j j \<and>
          (spdR st2 \<longleftrightarrow> spdR st \<and> (\<forall>k'<j. feq (el ?A k' j) (el ?A j k')))"
    unfolding invR_k_def ..
  then have hp2: "heapR st2 = h @ [R2]" and R2: "wf_Dense R2" "rows R2 = n" "cols R2 = n"
    and d2: "dR st2 = sumsq_col R2 j j"
    and spd2: "spdR st2 \<longleftrightarrow> spdR st \<and> (\<forall>k'<j. feq (el ?A k' j) (el ?A j k'))"
    by simp_all
  have frame2: "el R2 i q = el R0 i q" if "i < n" "q < n" "q \<noteq> j" for i q
    using R2all that by simp
  have ent2: "el R2 k j = fdiv (subR ?A R2 k j k) (el R2 k k)" if "k < j" for k
    using R2all that by simp
  \<comment> \<open>the pivot and the diagonal entry\<close>
  have ajj: "At a j j (heapR st2) = Inr (el ?A j j)"
    using a wfA cA jA jn by (simp add: hp2 At_old Dense_At_ok)
  define d' where "d' = fsub (el ?A j j) (dR st2)"
  define v where "v = fsqrt (fmax d' (Fin 0))"
  define R3 where "R3 = set_el R2 j j v"
  have R3: "wf_Dense R3" "rows R3 = n" "cols R3 = n"
    using R2 by (simp_all add: R3_def)
  have setd: "SetAt (length h) j j v (heapR st2) = Inr (h @ [R3])"
    using R2 jn by (simp add: hp2 SetAt_new Dense_Set_ok R3_def)
  have elR3: "el R3 i q = (if i = j \<and> q = j then v else el R2 i q)" if "i < n" "q < n" for i q
    using that R2 jn by (simp add: R3_def el_set_el)
  \<comment> \<open>the zeros below the diagonal\<close>
  obtain R4 where zero: "for_loop [j + 1..<n] (\<lambda>k. SetAt (length h) k j (Fin 0)) (h @ [R3]) = Inr (h @ [R4])"
    and R4: "wf_Dense R4" "rows R4 = n" "cols R4 = n"
    and elR4': "\<forall>i<n. \<forall>q<n. el R4 i q = (if q = j \<and> j < i then Fin 0 else el R3 i q)"
    using zero_colR_loop [OF R3 jn, of h] by blast
  have zero': "for_loop [Suc j..<n] (\<lambda>k. SetAt (length h) k j (Fin 0)) (h @ [R3]) = Inr (h @ [R4])"
    using zero by simp
  have elR4: "el R4 i q = (if q = j then (if i < j then el R2 i j else if i = j then v else Fin 0)
                           else el R0 i q)" if "i < n" "q < n" for i q
  proof -
    have "el R4 i q = (if q = j \<and> j < i then Fin 0 else el R3 i q)" using elR4' that by simp
    then show ?thesis using that by (auto simp: elR3 frame2)
  qed
  define st' where "st' = st2\<lparr>heapR := h @ [R4], spdR := (spdR st2 \<and> fgt d' (Fin 0)), dR := d'\<rparr>"
  have res: "CholeskyR_j a (length h) n j st = Inr st'"
    unfolding CholeskyR_j_def
    by (simp add: loop ajj setd [unfolded v_def d'_def] zero' Let_def st'_def d'_def)
  have piv: "pivotR ?A R4 j = d'"
  proof -
    have "sumsq_col R4 j j = sumsq_col R2 j j"
      by (rule sumsq_col_cong) (use jn elR4 in simp)
    then show ?thesis by (simp add: pivotR_def d'_def d2)
  qed
  have colj_ok: "colR_ok ?A R4 n j"
    unfolding colR_ok_def
  proof (intro conjI allI impI)
    fix k assume kj: "k < j"
    have "subR ?A R4 k j k = subR ?A R2 k j k"
      by (rule subR_cong) (use kj jn elR4 frame2 in simp)
    moreover have "el R4 k k = el R2 k k" using kj jn elR4 frame2 by simp
    moreover have "el R4 k j = el R2 k j" using kj jn elR4 by simp
    ultimately show "el R4 k j = fdiv (subR ?A R4 k j k) (el R4 k k)"
      using ent2 [OF kj] by simp
  next
    show "el R4 j j = fsqrt (fmax (pivotR ?A R4 j) (Fin 0))"
      using jn elR4 by (simp add: piv v_def)
  next
    fix k assume "j < k \<and> k < n"
    then show "el R4 k j = Fin 0" using jn elR4 by simp
  qed
  have old_ok: "colR_ok ?A R4 n j'" if "j' < j" for j'
  proof (rule colR_ok_mono [OF _ _ cols_ok [OF that]])
    show "j' < n" using that jn by simp
    fix i q assume "i < n" "q \<le> j'"
    then show "el R4 i q = el R0 i q" using that jn elR4 by simp
  qed
  have old_piv: "pivotR ?A R4 j' = pivotR ?A R0 j'" if "j' < j" for j'
    by (rule pivotR_cong) (use that jn elR4 in simp)
  have all_ok: "\<forall>j'<Suc j. colR_ok ?A R4 n j'"
    using old_ok colj_ok by (auto simp: less_Suc_eq)
  have "(\<forall>j'<Suc j. fgt (pivotR ?A R4 j') (Fin 0)) \<longleftrightarrow>
        (\<forall>j'<j. fgt (pivotR ?A R0 j') (Fin 0)) \<and> fgt d' (Fin 0)"
    using old_piv piv by (auto simp: less_Suc_eq)
  then have spd': "spdR st' \<longleftrightarrow> rows ?A = n \<and> sym_upto ?A (Suc j) \<and>
        (\<forall>j'<Suc j. fgt (pivotR ?A R4 j') (Fin 0))"
    unfolding sym_upto_Suc using spd2 spd0 by (auto simp: st'_def)
  have "invR_j h ?A n (Suc j) st'"
    unfolding invR_j_def
    by (rule exI [of _ R4]) (use R4 all_ok spd' in \<open>simp add: st'_def\<close>)
  then show ?thesis using res by blast
qed

section \<open>The run of \<^verbatim>\<open>CholeskyR\<close>\<close>

lemma invR_j_init:
  "invR_j h A n 0 \<lparr>heapR = h @ [\<lparr>rows = n, cols = n, data = replicate (n * n) (Fin 0)\<rparr>],
      spdR = (rows A = n), dR = Fin 0\<rparr>"
  unfolding invR_j_def
  by (rule exI [of _ "\<lparr>rows = n, cols = n, data = replicate (n * n) (Fin 0)\<rparr>"])
     (simp add: wf_Dense_def sym_upto_def)

lemma CholeskyR_loop:
  assumes a: "a < length h" and wfA: "wf_Dense (h ! a)" and cA: "cols (h ! a) = n"
    and mn: "m \<le> rows (h ! a)" "m \<le> n"
  shows "\<exists>st. for_loop [0..<m] (CholeskyR_j a (length h) n)
           \<lparr>heapR = h @ [\<lparr>rows = n, cols = n, data = replicate (n * n) (Fin 0)\<rparr>],
            spdR = (rows (h ! a) = n), dR = Fin 0\<rparr> = Inr st \<and> invR_j h (h ! a) n m st"
proof (rule for_loop_total [where I = "invR_j h (h ! a) n"])
  show "0 \<le> m" by simp
  show "invR_j h (h ! a) n 0 \<lparr>heapR = h @ [\<lparr>rows = n, cols = n, data = replicate (n * n) (Fin 0)\<rparr>],
            spdR = (rows (h ! a) = n), dR = Fin 0\<rparr>"
    by (rule invR_j_init)
next
  fix j t assume "0 \<le> j" "j < m" "invR_j h (h ! a) n j t"
  then show "\<exists>t'. CholeskyR_j a (length h) n j t = Inr t' \<and> invR_j h (h ! a) n (Suc j) t'"
    using CholeskyR_j_step [OF a wfA cA, of j t] mn by simp
qed

text \<open>On a well-formed matrix with at least as many rows as columns \<^verbatim>\<open>CholeskyR\<close>
  returns; the factor is appended to the store and satisfies the equations of its columns.\<close>

lemma CholeskyR_run:
  assumes a: "a < length h" and wfA: "wf_Dense (h ! a)" and le: "cols (h ! a) \<le> rows (h ! a)"
  shows "\<exists>R sp. CholeskyR a h = Inr (length h, sp, h @ [R]) \<and>
           rows R = cols (h ! a) \<and> cols R = cols (h ! a) \<and> wf_Dense R \<and>
           (\<forall>j<cols (h ! a). colR_ok (h ! a) R (cols (h ! a)) j) \<and>
           (sp \<longleftrightarrow> rows (h ! a) = cols (h ! a) \<and> sym_upto (h ! a) (cols (h ! a)) \<and>
                  (\<forall>j<cols (h ! a). fgt (pivotR (h ! a) R j) (Fin 0)))"
proof -
  let ?A = "h ! a" and ?n = "cols (h ! a)"
  obtain st where loop: "for_loop [0..<?n] (CholeskyR_j a (length h) ?n)
           \<lparr>heapR = h @ [\<lparr>rows = ?n, cols = ?n, data = replicate (?n * ?n) (Fin 0)\<rparr>],
            spdR = (rows ?A = ?n), dR = Fin 0\<rparr> = Inr st" and inv: "invR_j h ?A ?n ?n st"
    using CholeskyR_loop [OF a wfA refl le order_refl] by blast
  from inv obtain R where Rall: "heapR st = h @ [R] \<and> rows R = ?n \<and> cols R = ?n \<and> wf_Dense R \<and>
          (\<forall>j'<?n. colR_ok ?A R ?n j') \<and>
          (spdR st \<longleftrightarrow> rows ?A = ?n \<and> sym_upto ?A ?n \<and> (\<forall>j'<?n. fgt (pivotR ?A R j') (Fin 0)))"
    unfolding invR_j_def ..
  have res: "CholeskyR a h = Inr (length h, spdR st, heapR st)"
    by (simp add: CholeskyR_def Dims_ok [OF a] NewDense_def loop)
  show ?thesis
    by (rule exI [of _ R], rule exI [of _ "spdR st"]) (use res Rall in simp)
qed

text \<open>With fewer rows than columns \<open>spd\<close> is false from the start, so the loop over \<open>k\<close>
  of the round \<open>j = rows a\<close> never reads \<^verbatim>\<open>a.At(j, k)\<close>; the round fails at
  \<^verbatim>\<open>a.At(j, j)\<close>.\<close>

lemma CholeskyR_j_panics:
  assumes a: "a < length h" and wfA: "wf_Dense (h ! a)" and cA: "cols (h ! a) = n"
    and lt: "rows (h ! a) < n"
    and inv: "invR_j h (h ! a) n (rows (h ! a)) st"
  shows "CholeskyR_j a (length h) n (rows (h ! a)) st = Inl ErrIndexOutOfRange"
proof -
  let ?A = "h ! a" and ?m = "rows (h ! a)"
  from inv obtain R0 where R0all: "heapR st = h @ [R0] \<and> rows R0 = n \<and> cols R0 = n \<and> wf_Dense R0 \<and>
          (\<forall>j'<?m. colR_ok ?A R0 n j') \<and>
          (spdR st \<longleftrightarrow> rows ?A = n \<and> sym_upto ?A ?m \<and> (\<forall>j'<?m. fgt (pivotR ?A R0 j') (Fin 0)))"
    unfolding invR_j_def ..
  then have hp: "heapR st = h @ [R0]" and R0: "rows R0 = n" "cols R0 = n" "wf_Dense R0"
    and nspd: "\<not> spdR st"
    using lt by simp_all
  obtain st2 where loop: "for_loop [0..<?m] (CholeskyR_k a (length h) ?m) (st\<lparr>dR := Fin 0\<rparr>) = Inr st2"
    and inv2: "invR_k h ?A R0 n ?m (spdR st) ?m st2"
    using CholeskyR_k_loop [OF a wfA cA order_refl _ lt hp R0] nspd by auto
  from inv2 obtain R2 where "heapR st2 = h @ [R2]"
    unfolding invR_k_def by blast
  then have "At a ?m ?m (heapR st2) = Inl ErrIndexOutOfRange"
    using a by (simp add: At_row_out)
  then show ?thesis
    by (simp add: CholeskyR_j_def loop)
qed

lemma CholeskyR_panics:
  assumes a: "a < length h" and wfA: "wf_Dense (h ! a)" and lt: "rows (h ! a) < cols (h ! a)"
  shows "CholeskyR a h = Inl ErrIndexOutOfRange"
proof -
  let ?A = "h ! a" and ?n = "cols (h ! a)" and ?m = "rows (h ! a)"
  let ?st0 = "\<lparr>heapR = h @ [\<lparr>rows = ?n, cols = ?n, data = replicate (?n * ?n) (Fin 0)\<rparr>],
            spdR = (rows ?A = ?n), dR = Fin 0\<rparr>"
  obtain st where loop: "for_loop [0..<?m] (CholeskyR_j a (length h) ?n) ?st0 = Inr st"
    and inv: "invR_j h ?A ?n ?m st"
    using CholeskyR_loop [OF a wfA refl order_refl] lt by auto
  have "[0..<?n] = [0..<?m] @ ?m # [Suc ?m..<?n]"
    using lt by (metis le_add_diff_inverse less_imp_le_nat upt_add_eq_append upt_conv_Cons zero_le)
  then have "for_loop [0..<?n] (CholeskyR_j a (length h) ?n) ?st0 =
        bindE (CholeskyR_j a (length h) ?n ?m st) (for_loop [Suc ?m..<?n] (CholeskyR_j a (length h) ?n))"
    by (simp add: for_loop_append loop)
  also have "\<dots> = Inl ErrIndexOutOfRange"
    by (simp add: CholeskyR_j_panics [OF a wfA refl lt inv])
  finally show ?thesis
    by (simp add: CholeskyR_def Dims_ok [OF a] NewDense_def)
qed

lemma CholeskyR_nil: "\<not> a < length h \<Longrightarrow> CholeskyR a h = Inl ErrNilPointer"
  by (simp add: CholeskyR_def Dims_nil)

lemma CholeskyR_returns:
  assumes "wf_Dense (h ! a)" "CholeskyR a h = Inr res"
  shows "a < length h \<and> cols (h ! a) \<le> rows (h ! a)"
proof -
  have "a < length h" using assms(2) CholeskyR_nil [of a h] by auto
  moreover have "cols (h ! a) \<le> rows (h ! a)"
    using assms CholeskyR_panics [OF \<open>a < length h\<close> assms(1)] by (cases "rows (h ! a) < cols (h ! a)") auto
  ultimately show ?thesis by simp
qed

lemma CholeskyR_result:
  assumes wf: "wf_Dense (h ! a)" and eq: "CholeskyR a h = Inr (r, sp, h')"
  shows "r = length h" and "h' = h @ [h' ! r]"
    and "rows (h' ! r) = cols (h ! a)" and "cols (h' ! r) = cols (h ! a)"
    and "wf_Dense (h' ! r)"
    and "\<forall>j<cols (h ! a). colR_ok (h ! a) (h' ! r) (cols (h ! a)) j"
    and "sp \<longleftrightarrow> rows (h ! a) = cols (h ! a) \<and> sym_upto (h ! a) (cols (h ! a)) \<and>
                (\<forall>j<cols (h ! a). fgt (pivotR (h ! a) (h' ! r) j) (Fin 0))"
proof -
  have a: "a < length h" and le: "cols (h ! a) \<le> rows (h ! a)"
    using CholeskyR_returns [OF wf eq] by simp_all
  obtain M sp0 where run: "CholeskyR a h = Inr (length h, sp0, h @ [M])"
    and rest: "rows M = cols (h ! a) \<and> cols M = cols (h ! a) \<and> wf_Dense M \<and>
           (\<forall>j<cols (h ! a). colR_ok (h ! a) M (cols (h ! a)) j) \<and>
           (sp0 \<longleftrightarrow> rows (h ! a) = cols (h ! a) \<and> sym_upto (h ! a) (cols (h ! a)) \<and>
                  (\<forall>j<cols (h ! a). fgt (pivotR (h ! a) M j) (Fin 0)))"
    using CholeskyR_run [OF a wf le] by blast
  have l: "r = length h" and sp: "sp = sp0" and h': "h' = h @ [M]"
    using eq run by simp_all
  have M: "h' ! r = M" by (simp add: l h')
  show "r = length h" by (rule l)
  show "h' = h @ [h' ! r]" unfolding M by (rule h')
  show "rows (h' ! r) = cols (h ! a)" "cols (h' ! r) = cols (h ! a)" "wf_Dense (h' ! r)"
    unfolding M using rest by simp_all
  show "\<forall>j<cols (h ! a). colR_ok (h ! a) (h' ! r) (cols (h ! a)) j"
    unfolding M using rest by simp
  show "sp \<longleftrightarrow> rows (h ! a) = cols (h ! a) \<and> sym_upto (h ! a) (cols (h ! a)) \<and>
                (\<forall>j<cols (h ! a). fgt (pivotR (h ! a) (h' ! r) j) (Fin 0))"
    unfolding M sp using rest by simp
qed

lemma colR_ok_diag: "colR_ok A R n j \<Longrightarrow> el R j j = fsqrt (fmax (pivotR A R j) (Fin 0))"
  by (simp add: colR_ok_def)

lemma colR_ok_lower: "colR_ok A R n j \<Longrightarrow> j < k \<Longrightarrow> k < n \<Longrightarrow> el R k j = Fin 0"
  by (simp add: colR_ok_def)

section \<open>What \<^verbatim>\<open>CholeskySolve\<close> leaves alone\<close>

lemma only_changes_refl: "only_changes b h h"
  by (simp add: only_changes_def)

lemma only_changes_trans:
  "only_changes b h h' \<Longrightarrow> only_changes b h' h'' \<Longrightarrow> only_changes b h h''"
  by (simp add: only_changes_def)

lemma SetAt_only_changes: "SetAt b i j v h = Inr h' \<Longrightarrow> only_changes b h h'"
  by (auto simp: SetAt_def deref_def only_changes_def bindE_eq_Inr split: if_splits)

lemma for_loop_only_changes:
  assumes "\<And>i t t'. body i t = Inr t' \<Longrightarrow> only_changes b t t'"
    and "for_loop xs body h = Inr h'"
  shows "only_changes b h h'"
  by (rule for_loop_rel [where R = "only_changes b" and body = body, OF _ _ _ assms(2)])
     (auto intro: only_changes_refl only_changes_trans assms(1))

lemma CholeskySolve_fwd_i_frame:
  "CholeskySolve_fwd_i l x k j i h = Inr h' \<Longrightarrow> only_changes x h h'"
  by (auto simp: CholeskySolve_fwd_i_def bindE_eq_Inr dest: SetAt_only_changes)

lemma CholeskySolve_back_i_frame:
  "CholeskySolve_back_i l x k j i h = Inr h' \<Longrightarrow> only_changes x h h'"
  by (auto simp: CholeskySolve_back_i_def bindE_eq_Inr dest: SetAt_only_changes)

lemma CholeskySolve_div_frame:
  "CholeskySolve_div l x k j h = Inr h' \<Longrightarrow> only_changes x h h'"
  by (auto simp: CholeskySolve_div_def bindE_eq_Inr dest: SetAt_only_changes)

lemma CholeskySolve_fwd_j_frame:
  assumes "CholeskySolve_fwd_j l x k j h = Inr h'"
  shows "only_changes x h h'"
proof -
  from assms obtain h1 where 1: "for_loop [0..<k] (CholeskySolve_fwd_i l x k j) h = Inr h1"
    and 2: "CholeskySolve_div l x k j h1 = Inr h'"
    by (auto simp: CholeskySolve_fwd_j_def bindE_eq_Inr)
  have "only_changes x h h1"
    by (rule for_loop_only_changes [OF _ 1]) (rule CholeskySolve_fwd_i_frame)
  then show ?thesis
    using CholeskySolve_div_frame [OF 2] by (rule only_changes_trans)
qed

lemma CholeskySolve_back_j_frame:
  assumes "CholeskySolve_back_j l x n k j h = Inr h'"
  shows "only_changes x h h'"
proof -
  from assms obtain h1 where 1: "for_loop [k + 1..<n] (CholeskySolve_back_i l x k j) h = Inr h1"
    and 2: "CholeskySolve_div l x k j h1 = Inr h'"
    by (auto simp: CholeskySolve_back_j_def bindE_eq_Inr)
  have "only_changes x h h1"
    by (rule for_loop_only_changes [OF _ 1]) (rule CholeskySolve_back_i_frame)
  then show ?thesis
    using CholeskySolve_div_frame [OF 2] by (rule only_changes_trans)
qed

lemma CholeskySolve_frame:
  assumes "CholeskySolve l b h = Inr (x, h')"
  shows "x = b \<and> only_changes b h h'"
proof -
  from assms obtain n nx h1 where x: "x = b"
    and 1: "for_loop [0..<n] (\<lambda>k. for_loop [0..<nx] (CholeskySolve_fwd_j l b k)) h = Inr h1"
    and 2: "for_loop (rev [0..<n]) (\<lambda>k. for_loop [0..<nx] (CholeskySolve_back_j l b n k)) h1 = Inr h'"
    by (auto simp: CholeskySolve_def bindE_eq_Inr Let_def split: if_splits)
  have "only_changes b h h1"
  proof (rule for_loop_only_changes [OF _ 1])
    fix k t t' assume "for_loop [0..<nx] (CholeskySolve_fwd_j l b k) t = Inr t'"
    then show "only_changes b t t'"
      by (rule for_loop_only_changes [rotated]) (rule CholeskySolve_fwd_j_frame)
  qed
  moreover have "only_changes b h1 h'"
  proof (rule for_loop_only_changes [OF _ 2])
    fix k t t' assume "for_loop [0..<nx] (CholeskySolve_back_j l b n k) t = Inr t'"
    then show "only_changes b t t'"
      by (rule for_loop_only_changes [rotated]) (rule CholeskySolve_back_j_frame)
  qed
  ultimately show ?thesis using x only_changes_trans by blast
qed

section \<open>Evaluation on concrete matrices\<close>

lemmas prim_defs = Dims_def At_def SetAt_def Row_def SetRow_def deref_def Dense_At_def Dense_Set_def
  Dense_Row_def Dense_SetRow_def el_def set_el_def set_row_def row_into_def NewDense_def
  slice_get_def slice_set_def

lemma upt_small:
  "[0..<2] = [0, 1]" "[0..<1] = [0]" "[1..<2] = [1]" "[2..<2] = []" "[0..<0] = []"
  "[0..<Suc 0] = [0]" "[Suc 0..<2] = [1]"
  by (simp_all add: upt_rec)

lemma list_small:
  "replicate 4 x = [x, x, x, x]" "replicate 2 x = [x, x]" "[0..<4] = [0, 1, 2, 3]"
  by (simp_all add: eval_nat_numeral upt_rec)

lemmas eval_simps = prim_defs upt_small list_small eval_nat_numeral

lemmas chol_defs = CholeskyL_def CholeskyL_j_def CholeskyL_k_def CholeskyL_i_def
  CholeskyR_def CholeskyR_j_def CholeskyR_k_def CholeskyR_i_def fsub_def fmax_def feq_def Let_def

lemmas solve_defs = CholeskySolve_def CholeskySolve_fwd_j_def CholeskySolve_fwd_i_def
  CholeskySolve_back_j_def CholeskySolve_back_i_def CholeskySolve_div_def fsub_def Let_def

lemmas spec_defs = pivotL_def pivotR_def sumsq_row_def sumsq_col_def dotL_def subR_def
  el_def fsub_def fmax_def feq_def upt_small

lemma sqrt2_twice: "(x::real) * sqrt 2 * sqrt 2 = x * 2"
  by (simp add: mult.assoc)

lemma ex_CholeskyL: "CholeskyL 0 [ex_A, ex_B2] = Inr (2, True, [ex_A, ex_B2, ex_L])"
  by (simp add: chol_defs eval_simps ex_A_def ex_L_def)

lemma ex_CholeskyR: "CholeskyR 0 [ex_A, ex_B2] = Inr (2, True, [ex_A, ex_B2, ex_R])"
  by (simp add: chol_defs eval_simps ex_A_def ex_R_def)

lemma ex_CholeskyL_asym: "CholeskyL 0 [ex_asym] = Inr (1, False, [ex_asym, ex_asym_L])"
  by (simp add: chol_defs eval_simps ex_asym_def ex_asym_L_def real_sqrt_divide)

lemma ex_CholeskyR_asym: "CholeskyR 0 [ex_asym] = Inr (1, False, [ex_asym, ex_R])"
  by (simp add: chol_defs eval_simps ex_asym_def ex_R_def)

lemma ex_CholeskyL_indef: "CholeskyL 0 [ex_indef] = Inr (1, False, [ex_indef, ex_indef_L])"
  by (simp add: chol_defs eval_simps ex_indef_def ex_indef_L_def)

lemma ex_CholeskyR_indef: "CholeskyR 0 [ex_indef] = Inr (1, False, [ex_indef, ex_indef_R])"
  by (simp add: chol_defs eval_simps ex_indef_def ex_indef_R_def)

lemma ex_CholeskyL_zero2: "CholeskyL 0 [zero_Dense 2] = Inr (1, False, [zero_Dense 2, ex_zero2_L])"
  by (simp add: chol_defs eval_simps zero_Dense_def ex_zero2_L_def numeral_2_eq_2)

lemma ex_CholeskySolve: "CholeskySolve 2 1 [ex_A, ex_B2, ex_L] = Inr (1, [ex_A, ex_X2, ex_L])"
  by (simp add: solve_defs eval_simps ex_B2_def ex_L_def ex_X2_def sqrt2_twice)

section \<open>The shape checks of \<^verbatim>\<open>CholeskySolve\<close>\<close>

text \<open>
  C1: the claim is that \<^verbatim>\<open>CholeskySolve\<close> fails with the dimension-mismatch error
  exactly when the row count of \<open>b\<close> differs from the order of \<open>l\<close>.  The source
  compares the order with the column count \<open>bn\<close> of \<open>b\<close>.  With the factor of order two:
  the right-hand side \<open>[[1],[2]]\<close> has two rows and is rejected with \<^verbatim>\<open>mat64.ErrShape\<close>;
  the right-hand side \<open>[[1,2]]\<close> has one row and passes the check, and the forward
  substitution then reads its missing second row.
\<close>

theorem CholeskySolve_checks_columns:
  "rows ex_B = rows ex_L \<and> CholeskySolve 0 1 [ex_L, ex_B] = Inl ErrShape \<and>
   rows ex_B12 \<noteq> rows ex_L \<and> CholeskySolve 0 1 [ex_L, ex_B12] = Inl ErrIndexOutOfRange"
  by (simp add: CholeskySolve_def CholeskySolve_fwd_j_def CholeskySolve_fwd_i_def
      CholeskySolve_div_def prim_defs ex_B_def ex_L_def ex_B12_def upt_small)

text \<open>
  C8: a factor whose stored row count differs from its column count makes
  \<^verbatim>\<open>CholeskySolve\<close> panic with \<^verbatim>\<open>mat64.ErrSquare\<close>, the spec's shape error, whatever
  the right-hand side \<open>b\<close> is (the check comes before \<open>b\<close> is looked at).
\<close>

theorem CholeskySolve_nonsquare:
  "l < length h \<Longrightarrow> rows (h ! l) \<noteq> cols (h ! l) \<Longrightarrow> CholeskySolve l b h = Inl ErrSquare"
  by (auto simp: CholeskySolve_def Dims_ok)

theorem CholeskySolve_nonsquare_witness:
  "(0::nat) < length [ex_L23, ex_B] \<and> rows ([ex_L23, ex_B] ! 0) \<noteq> cols ([ex_L23, ex_B] ! 0) \<and>
   CholeskySolve 0 1 [ex_L23, ex_B] = Inl ErrSquare"
  using CholeskySolve_nonsquare [of 0 "[ex_L23, ex_B]" 1] by (simp add: ex_L23_def)

section \<open>The worked example of the spec\<close>

text \<open>
  C2: the spec's end-to-end example factorizes \<open>A = [[4,2],[2,3]]\<close> and solves for the
  right-hand side \<open>B = [[1],[2]]\<close>.  \<^verbatim>\<open>CholeskyL\<close> returns \<open>spd = true\<close> and the factor
  \<open>[[2,0],[1,Sqrt(2)]]\<close>.  The right-hand side has as many rows as the factor, which is
  what the comment of \<^verbatim>\<open>CholeskySolve\<close> asks for, and \<^verbatim>\<open>CholeskySolve\<close> panics with
  \<^verbatim>\<open>mat64.ErrShape\<close> all the same: its check compares the order of the factor with the
  column count of \<open>B\<close>, which is one.  No solution is returned.
\<close>

theorem solve_example_of_spec_panics:
  "CholeskyL 0 [ex_A, ex_B] = Inr (2, True, [ex_A, ex_B, ex_L]) \<and>
   rows ex_B = rows ex_L \<and> rows ex_L = cols ex_L \<and>
   CholeskySolve 2 1 [ex_A, ex_B, ex_L] = Inl ErrShape"
  by (simp add: chol_defs CholeskySolve_def eval_simps ex_A_def ex_L_def ex_B_def)

section \<open>The verdict\<close>

text \<open>
  C3: whenever \<^verbatim>\<open>CholeskyL\<close> (respectively \<^verbatim>\<open>CholeskyR\<close>) returns, its boolean is true
  exactly when the input is square, every pair \<open>k < j\<close> passes the exact test
  \<^verbatim>\<open>a.At(k, j) == a.At(j, k)\<close>, and every pivot \<open>d = A[j,j] - \<Sum> L[j,k]\<^sup>2\<close> is strictly
  positive; the pivot is the value whose clamped square root is the diagonal entry.
\<close>

theorem spd_iff_square_symmetric_positive:
  assumes wf: "wf_Dense (h ! a)"
  shows "(CholeskyL a h = Inr (l, sp, h') \<longrightarrow>
           (sp \<longleftrightarrow> rows (h ! a) = cols (h ! a) \<and>
                  (\<forall>j<cols (h ! a). \<forall>k<j. feq (el (h ! a) k j) (el (h ! a) j k)) \<and>
                  (\<forall>j<cols (h ! a). fgt (pivotL (h ! a) (h' ! l) j) (Fin 0))) \<and>
           (\<forall>j<cols (h ! a). el (h' ! l) j j = fsqrt (fmax (pivotL (h ! a) (h' ! l) j) (Fin 0)))) \<and>
         (CholeskyR a h = Inr (r, sp', h'') \<longrightarrow>
           (sp' \<longleftrightarrow> rows (h ! a) = cols (h ! a) \<and>
                  (\<forall>j<cols (h ! a). \<forall>k<j. feq (el (h ! a) k j) (el (h ! a) j k)) \<and>
                  (\<forall>j<cols (h ! a). fgt (pivotR (h ! a) (h'' ! r) j) (Fin 0))) \<and>
           (\<forall>j<cols (h ! a). el (h'' ! r) j j = fsqrt (fmax (pivotR (h ! a) (h'' ! r) j) (Fin 0))))"
proof (intro conjI impI)
  assume eq: "CholeskyL a h = Inr (l, sp, h')"
  note res = CholeskyL_result [OF wf eq]
  show "sp \<longleftrightarrow> rows (h ! a) = cols (h ! a) \<and>
                  (\<forall>j<cols (h ! a). \<forall>k<j. feq (el (h ! a) k j) (el (h ! a) j k)) \<and>
                  (\<forall>j<cols (h ! a). fgt (pivotL (h ! a) (h' ! l) j) (Fin 0))"
    using res(7) by (simp add: sym_upto_def)
  show "\<forall>j<cols (h ! a). el (h' ! l) j j = fsqrt (fmax (pivotL (h ! a) (h' ! l) j) (Fin 0))"
    using res(6) rowL_ok_diag by blast
next
  assume eq: "CholeskyR a h = Inr (r, sp', h'')"
  note res = CholeskyR_result [OF wf eq]
  show "sp' \<longleftrightarrow> rows (h ! a) = cols (h ! a) \<and>
                  (\<forall>j<cols (h ! a). \<forall>k<j. feq (el (h ! a) k j) (el (h ! a) j k)) \<and>
                  (\<forall>j<cols (h ! a). fgt (pivotR (h ! a) (h'' ! r) j) (Fin 0))"
    using res(7) by (simp add: sym_upto_def)
  show "\<forall>j<cols (h ! a). el (h'' ! r) j j = fsqrt (fmax (pivotR (h ! a) (h'' ! r) j) (Fin 0))"
    using res(6) colR_ok_diag by blast
qed

theorem spd_iff_square_symmetric_positive_witness:
  "wf_Dense ([ex_asym] ! 0) \<and>
   CholeskyL 0 [ex_asym] = Inr (1, False, [ex_asym, ex_asym_L]) \<and>
   CholeskyR 0 [ex_asym] = Inr (1, False, [ex_asym, ex_R]) \<and>
   rows ex_asym = cols ex_asym \<and>
   fgt (pivotL ex_asym ex_asym_L 0) (Fin 0) \<and> fgt (pivotL ex_asym ex_asym_L 1) (Fin 0) \<and>
   fgt (pivotR ex_asym ex_R 0) (Fin 0) \<and> fgt (pivotR ex_asym ex_R 1) (Fin 0) \<and>
   \<not> feq (el ex_asym 0 1) (el ex_asym 1 0) \<and>
   (False \<longleftrightarrow> rows ex_asym = cols ex_asym \<and>
      (\<forall>j<cols ex_asym. \<forall>k<j. feq (el ex_asym k j) (el ex_asym j k)) \<and>
      (\<forall>j<cols ex_asym. fgt (pivotL ex_asym ex_asym_L j) (Fin 0))) \<and>
   (False \<longleftrightarrow> rows ex_asym = cols ex_asym \<and>
      (\<forall>j<cols ex_asym. \<forall>k<j. feq (el ex_asym k j) (el ex_asym j k)) \<and>
      (\<forall>j<cols ex_asym. fgt (pivotR ex_asym ex_R j) (Fin 0)))"
proof -
  have wf: "wf_Dense ([ex_asym] ! 0)" by (simp add: wf_Dense_def ex_asym_def)
  note t = spd_iff_square_symmetric_positive [OF wf,
      of 1 False "[ex_asym, ex_asym_L]" 1 False "[ex_asym, ex_R]"]
  have c: "(False \<longleftrightarrow> rows ex_asym = cols ex_asym \<and>
      (\<forall>j<cols ex_asym. \<forall>k<j. feq (el ex_asym k j) (el ex_asym j k)) \<and>
      (\<forall>j<cols ex_asym. fgt (pivotL ex_asym ex_asym_L j) (Fin 0))) \<and>
    (False \<longleftrightarrow> rows ex_asym = cols ex_asym \<and>
      (\<forall>j<cols ex_asym. \<forall>k<j. feq (el ex_asym k j) (el ex_asym j k)) \<and>
      (\<forall>j<cols ex_asym. fgt (pivotR ex_asym ex_R j) (Fin 0)))"
    using t ex_CholeskyL_asym ex_CholeskyR_asym by simp
  have p: "rows ex_asym = cols ex_asym \<and>
   fgt (pivotL ex_asym ex_asym_L 0) (Fin 0) \<and> fgt (pivotL ex_asym ex_asym_L 1) (Fin 0) \<and>
   fgt (pivotR ex_asym ex_R 0) (Fin 0) \<and> fgt (pivotR ex_asym ex_R 1) (Fin 0) \<and>
   \<not> feq (el ex_asym 0 1) (el ex_asym 1 0)"
    by (simp add: spec_defs ex_asym_def ex_asym_L_def ex_R_def power2_eq_square)
  show ?thesis
    using wf ex_CholeskyL_asym ex_CholeskyR_asym c p by blast
qed

section \<open>The zero matrix\<close>

text \<open>
  C4 as stated does not hold for \<open>n = 2\<close>: the second row of the factor is
  \<open>[NaN, NaN]\<close>, not zero.
\<close>

theorem CholeskyL_zero2_not_zero:
  "CholeskyL 0 [zero_Dense 2] = Inr (1, False, [zero_Dense 2, ex_zero2_L]) \<and>
   el ex_zero2_L 1 0 = NaN \<and> el ex_zero2_L 1 1 = NaN \<and>
   el ex_zero2_L 1 0 \<noteq> Fin 0 \<and> el ex_zero2_L 1 1 \<noteq> Fin 0"
  using ex_CholeskyL_zero2 by (simp add: el_def ex_zero2_L_def)

text \<open>
  C4, as amended: on the zero matrix of any order \<open>n \<ge> 1\<close>, \<^verbatim>\<open>CholeskyL\<close> returns
  \<open>spd = false\<close> and a factor whose first row and whose entries above the diagonal are
  exactly zero.  Every other entry is NaN: the first pivot is zero, so the entries
  \<open>L[j,0]\<close> of the later rows are \<^verbatim>\<open>0 / 0\<close>, and NaN spreads along each row to the
  diagonal.  The factor is the zero matrix for \<open>n = 1\<close> only.
\<close>

theorem CholeskyL_zero_matrix:
  assumes a: "a < length h" and A: "h ! a = zero_Dense n" and n: "1 \<le> n"
  shows "\<exists>L. CholeskyL a h = Inr (length h, False, h @ [L]) \<and> rows L = n \<and> cols L = n \<and>
           (\<forall>j<n. \<forall>k<n. el L j k = (if j = 0 \<or> j < k then Fin 0 else NaN))"
proof -
  have wf: "wf_Dense (h ! a)" and cA: "cols (h ! a) = n" and rA: "rows (h ! a) = n"
    by (simp_all add: A wf_zero_Dense) (simp_all add: zero_Dense_def)
  have le: "cols (h ! a) \<le> rows (h ! a)" by (simp add: cA rA)
  obtain L sp where run: "CholeskyL a h = Inr (length h, sp, h @ [L])"
    and dims': "rows L = cols (h ! a)" "cols L = cols (h ! a)"
    and ok': "\<forall>j<cols (h ! a). rowL_ok (h ! a) L (cols (h ! a)) j"
    and sp: "sp \<longleftrightarrow> rows (h ! a) = cols (h ! a) \<and> sym_upto (h ! a) (cols (h ! a)) \<and>
                  (\<forall>j<cols (h ! a). fgt (pivotL (h ! a) L j) (Fin 0))"
    using CholeskyL_run [OF a wf le] by blast
  have dims: "rows L = n" "cols L = n" using dims' cA by simp_all
  have ok: "rowL_ok (zero_Dense n) L n j" if "j < n" for j
    using ok' that cA A by simp
  have n0: "0 < n" using n by simp
  \<comment> \<open>the first row\<close>
  have p0: "pivotL (zero_Dense n) L 0 = Fin 0"
    using n0 by (simp add: pivotL_def sumsq_row_def el_zero_Dense fsub_def)
  have l00: "el L 0 0 = Fin 0"
    using rowL_ok_diag [OF ok [OF n0]] by (simp add: p0 fmax_def)
  have nsp: "\<not> sp"
  proof
    assume sp
    then have "fgt (pivotL (h ! a) L 0) (Fin 0)" using sp n0 cA by simp
    then have "fgt (pivotL (zero_Dense n) L 0) (Fin 0)" using A by simp
    then show False by (simp add: p0)
  qed
  \<comment> \<open>the first column of the later rows\<close>
  have col0: "el L j 0 = NaN" if "0 < j" "j < n" for j
  proof -
    have "el L j 0 = fdiv (fsub (el (zero_Dense n) j 0) (dotL L 0 j 0)) (el L 0 0)"
      using ok [OF that(2)] that(1) by (simp add: rowL_ok_def)
    then show ?thesis
      using that n0 by (simp add: el_zero_Dense dotL_def l00 fsub_def)
  qed
  \<comment> \<open>the rest of the later rows, up to the diagonal\<close>
  have low: "el L j k = NaN" if "0 < k" "k < j" "j < n" for j k
  proof -
    have "fmul (el L k 0) (el L j 0) = NaN"
      using col0 [of j] col0 [of k] that by simp
    then have "dotL L k j k = NaN"
      unfolding dotL_def using that(1) by (intro fold_fadd_first_NaN) simp_all
    moreover have "el L j k = fdiv (fsub (el (zero_Dense n) j k) (dotL L k j k)) (el L k k)"
      using ok [OF that(3)] that(2) by (simp add: rowL_ok_def)
    ultimately show ?thesis by (simp add: fsub_NaN_right)
  qed
  have diag: "el L j j = NaN" if "0 < j" "j < n" for j
  proof -
    have "fmul (el L j 0) (el L j 0) = NaN" using col0 [OF that] by simp
    then have "sumsq_row L j j = NaN"
      unfolding sumsq_row_def using that(1) by (intro fold_fadd_first_NaN) simp_all
    then have "pivotL (zero_Dense n) L j = NaN" by (simp add: pivotL_def fsub_NaN_right)
    then show ?thesis using rowL_ok_diag [OF ok [OF that(2)]] by (simp add: fmax_def)
  qed
  have ent: "el L j k = (if j = 0 \<or> j < k then Fin 0 else NaN)" if "j < n" "k < n" for j k
  proof (cases "j < k")
    case True
    then show ?thesis using rowL_ok_upper [OF ok [OF that(1)] True that(2)] by simp
  next
    case False
    show ?thesis
    proof (cases "j = 0")
      case True
      then show ?thesis using False l00 by simp
    next
      case j0: False
      consider "k = 0" | "0 < k" "k < j" | "k = j" using False by linarith
      then show ?thesis
        using j0 False col0 low diag that by cases simp_all
    qed
  qed
  have "CholeskyL a h = Inr (length h, False, h @ [L])" using run nsp by simp
  moreover have "\<forall>j<n. \<forall>k<n. el L j k = (if j = 0 \<or> j < k then Fin 0 else NaN)"
    using ent by simp
  ultimately show ?thesis
    using dims by (intro exI [of _ L]) simp
qed

theorem CholeskyL_zero_matrix_witness:
  "(0::nat) < length [zero_Dense 2] \<and> [zero_Dense 2] ! 0 = zero_Dense 2 \<and> (1::nat) \<le> 2 \<and>
   CholeskyL 0 [zero_Dense 2] = Inr (1, False, [zero_Dense 2, ex_zero2_L]) \<and>
   el ex_zero2_L 0 0 = Fin 0 \<and> el ex_zero2_L 0 1 = Fin 0 \<and>
   el ex_zero2_L 1 0 = NaN \<and> el ex_zero2_L 1 1 = NaN"
proof -
  have a: "(0::nat) < length [zero_Dense 2]" and A: "[zero_Dense 2] ! 0 = zero_Dense 2"
    and n: "(1::nat) \<le> 2" by simp_all
  from CholeskyL_zero_matrix [OF a A n]
  obtain L where L: "CholeskyL 0 [zero_Dense 2] = Inr (length [zero_Dense 2], False, [zero_Dense 2] @ [L])"
    and e: "\<forall>j<2. \<forall>k<2. el L j k = (if j = 0 \<or> j < k then Fin 0 else NaN)"
    by blast
  have "L = ex_zero2_L" using L ex_CholeskyL_zero2 by simp
  then have e': "\<forall>j<2. \<forall>k<2. el ex_zero2_L j k = (if j = 0 \<or> j < k then Fin 0 else NaN)"
    using e by simp
  have "el ex_zero2_L 0 0 = Fin 0 \<and> el ex_zero2_L 0 1 = Fin 0 \<and>
   el ex_zero2_L 1 0 = NaN \<and> el ex_zero2_L 1 1 = NaN"
    using e' [rule_format, of 0 0] e' [rule_format, of 0 1] e' [rule_format, of 1 0]
      e' [rule_format, of 1 1] by simp
  then show ?thesis
    using a n ex_CholeskyL_zero2 by simp
qed

section \<open>The factors are triangular\<close>

text \<open>
  C6: whatever the input, the factor returned by \<^verbatim>\<open>CholeskyL\<close> is zero strictly above
  the diagonal and the factor returned by \<^verbatim>\<open>CholeskyR\<close> is zero strictly below it.
\<close>

theorem factors_are_triangular:
  assumes wf: "wf_Dense (h ! a)"
  shows "(CholeskyL a h = Inr (l, sp, h') \<longrightarrow>
           rows (h' ! l) = cols (h ! a) \<and> cols (h' ! l) = cols (h ! a) \<and>
           (\<forall>j<cols (h ! a). \<forall>k<cols (h ! a). j < k \<longrightarrow> el (h' ! l) j k = Fin 0)) \<and>
         (CholeskyR a h = Inr (r, sp', h'') \<longrightarrow>
           rows (h'' ! r) = cols (h ! a) \<and> cols (h'' ! r) = cols (h ! a) \<and>
           (\<forall>j<cols (h ! a). \<forall>k<cols (h ! a). j < k \<longrightarrow> el (h'' ! r) k j = Fin 0))"
proof (intro conjI impI allI)
  assume eq: "CholeskyL a h = Inr (l, sp, h')"
  note res = CholeskyL_result [OF wf eq]
  show "rows (h' ! l) = cols (h ! a)" "cols (h' ! l) = cols (h ! a)" by (rule res(3), rule res(4))
  fix j k assume "j < cols (h ! a)" "k < cols (h ! a)" "j < k"
  then show "el (h' ! l) j k = Fin 0" using res(6) rowL_ok_upper by blast
next
  assume eq: "CholeskyR a h = Inr (r, sp', h'')"
  note res = CholeskyR_result [OF wf eq]
  show "rows (h'' ! r) = cols (h ! a)" "cols (h'' ! r) = cols (h ! a)" by (rule res(3), rule res(4))
  fix j k assume "j < cols (h ! a)" "k < cols (h ! a)" "j < k"
  then show "el (h'' ! r) k j = Fin 0" using res(6) colR_ok_lower by blast
qed

theorem factors_are_triangular_witness:
  "wf_Dense ([ex_asym] ! 0) \<and>
   CholeskyL 0 [ex_asym] = Inr (1, False, [ex_asym, ex_asym_L]) \<and>
   CholeskyR 0 [ex_asym] = Inr (1, False, [ex_asym, ex_R]) \<and>
   (0::nat) < cols ex_asym \<and> (1::nat) < cols ex_asym \<and> (0::nat) < 1 \<and>
   el ex_asym_L 0 1 = Fin 0 \<and> el ex_R 1 0 = Fin 0"
proof -
  have wf: "wf_Dense ([ex_asym] ! 0)" by (simp add: wf_Dense_def ex_asym_def)
  have c: "(0::nat) < cols ex_asym" "(1::nat) < cols ex_asym" by (simp_all add: ex_asym_def)
  note t = factors_are_triangular [OF wf,
      of 1 False "[ex_asym, ex_asym_L]" 1 False "[ex_asym, ex_R]"]
  have "\<forall>j<cols ex_asym. \<forall>k<cols ex_asym. j < k \<longrightarrow> el ex_asym_L j k = Fin 0"
    using t ex_CholeskyL_asym by simp
  then have 1: "el ex_asym_L 0 1 = Fin 0" using c by simp
  have "\<forall>j<cols ex_asym. \<forall>k<cols ex_asym. j < k \<longrightarrow> el ex_R k j = Fin 0"
    using t ex_CholeskyR_asym by simp
  then have 2: "el ex_R 1 0 = Fin 0" using c by simp
  show ?thesis
    using wf ex_CholeskyL_asym ex_CholeskyR_asym c 1 2 by simp
qed

section \<open>Totality and the clamp\<close>

text \<open>
  C7: on every square matrix \<^verbatim>\<open>CholeskyL\<close> returns, positive definite or not (and so
  does \<^verbatim>\<open>CholeskyR\<close>).  Every diagonal entry is the square root of the clamped pivot
  \<open>max(d, 0)\<close>, which is never negative, so a NaN on the diagonal is never the root of
  a negative number: it can only come from a pivot that is NaN already.
\<close>

theorem CholeskyL_total_and_clamped:
  assumes a: "a < length h" and wf: "wf_Dense (h ! a)" and sq: "rows (h ! a) = cols (h ! a)"
  shows "(\<exists>L sp. CholeskyL a h = Inr (length h, sp, h @ [L]) \<and>
            (\<forall>j<cols (h ! a).
               el L j j = fsqrt (fmax (pivotL (h ! a) L j) (Fin 0)) \<and>
               \<not> fgt (Fin 0) (fmax (pivotL (h ! a) L j) (Fin 0)) \<and>
               (el L j j = NaN \<longrightarrow> pivotL (h ! a) L j = NaN))) \<and>
         (\<exists>R sp. CholeskyR a h = Inr (length h, sp, h @ [R]) \<and>
            (\<forall>j<cols (h ! a).
               el R j j = fsqrt (fmax (pivotR (h ! a) R j) (Fin 0)) \<and>
               \<not> fgt (Fin 0) (fmax (pivotR (h ! a) R j) (Fin 0)) \<and>
               (el R j j = NaN \<longrightarrow> pivotR (h ! a) R j = NaN)))"
proof
  have le: "cols (h ! a) \<le> rows (h ! a)" using sq by simp
  obtain L sp where run: "CholeskyL a h = Inr (length h, sp, h @ [L])"
    and ok: "\<forall>j<cols (h ! a). rowL_ok (h ! a) L (cols (h ! a)) j"
    using CholeskyL_run [OF a wf le] by blast
  have "el L j j = fsqrt (fmax (pivotL (h ! a) L j) (Fin 0)) \<and>
        \<not> fgt (Fin 0) (fmax (pivotL (h ! a) L j) (Fin 0)) \<and>
        (el L j j = NaN \<longrightarrow> pivotL (h ! a) L j = NaN)" if "j < cols (h ! a)" for j
  proof -
    have d: "el L j j = fsqrt (fmax (pivotL (h ! a) L j) (Fin 0))"
      using ok that rowL_ok_diag by blast
    show ?thesis
      using d fmax_zero_not_neg fsqrt_fmax_NaN by metis
  qed
  then show "\<exists>L sp. CholeskyL a h = Inr (length h, sp, h @ [L]) \<and>
            (\<forall>j<cols (h ! a).
               el L j j = fsqrt (fmax (pivotL (h ! a) L j) (Fin 0)) \<and>
               \<not> fgt (Fin 0) (fmax (pivotL (h ! a) L j) (Fin 0)) \<and>
               (el L j j = NaN \<longrightarrow> pivotL (h ! a) L j = NaN))"
    using run by blast
next
  have le: "cols (h ! a) \<le> rows (h ! a)" using sq by simp
  obtain R sp where run: "CholeskyR a h = Inr (length h, sp, h @ [R])"
    and ok: "\<forall>j<cols (h ! a). colR_ok (h ! a) R (cols (h ! a)) j"
    using CholeskyR_run [OF a wf le] by blast
  have "el R j j = fsqrt (fmax (pivotR (h ! a) R j) (Fin 0)) \<and>
        \<not> fgt (Fin 0) (fmax (pivotR (h ! a) R j) (Fin 0)) \<and>
        (el R j j = NaN \<longrightarrow> pivotR (h ! a) R j = NaN)" if "j < cols (h ! a)" for j
  proof -
    have d: "el R j j = fsqrt (fmax (pivotR (h ! a) R j) (Fin 0))"
      using ok that colR_ok_diag by blast
    show ?thesis
      using d fmax_zero_not_neg fsqrt_fmax_NaN by metis
  qed
  then show "\<exists>R sp. CholeskyR a h = Inr (length h, sp, h @ [R]) \<and>
            (\<forall>j<cols (h ! a).
               el R j j = fsqrt (fmax (pivotR (h ! a) R j) (Fin 0)) \<and>
               \<not> fgt (Fin 0) (fmax (pivotR (h ! a) R j) (Fin 0)) \<and>
               (el R j j = NaN \<longrightarrow> pivotR (h ! a) R j = NaN))"
    using run by blast
qed

theorem CholeskyL_total_and_clamped_witness:
  "(0::nat) < length [ex_indef] \<and> wf_Dense ([ex_indef] ! 0) \<and>
   rows ([ex_indef] ! 0) = cols ([ex_indef] ! 0) \<and>
   CholeskyL 0 [ex_indef] = Inr (1, False, [ex_indef, ex_indef_L]) \<and>
   CholeskyR 0 [ex_indef] = Inr (1, False, [ex_indef, ex_indef_R]) \<and>
   pivotL ex_indef ex_indef_L 1 = Fin (- 3) \<and>
   el ex_indef_L 1 1 = fsqrt (fmax (pivotL ex_indef ex_indef_L 1) (Fin 0)) \<and>
   \<not> fgt (Fin 0) (fmax (pivotL ex_indef ex_indef_L 1) (Fin 0)) \<and>
   el ex_indef_L 1 1 = Fin 0 \<and>
   el ex_indef_R 1 1 = fsqrt (fmax (pivotR ex_indef ex_indef_R 1) (Fin 0)) \<and>
   \<not> fgt (Fin 0) (fmax (pivotR ex_indef ex_indef_R 1) (Fin 0))"
proof -
  have a: "(0::nat) < length [ex_indef]" by simp
  have wf: "wf_Dense ([ex_indef] ! 0)" by (simp add: wf_Dense_def ex_indef_def)
  have sq: "rows ([ex_indef] ! 0) = cols ([ex_indef] ! 0)" by (simp add: ex_indef_def)
  have c: "(1::nat) < cols ([ex_indef] ! 0)" by (simp add: ex_indef_def)
  note t = CholeskyL_total_and_clamped [OF a wf sq]
  from t obtain L sp where L: "CholeskyL 0 [ex_indef] = Inr (length [ex_indef], sp, [ex_indef] @ [L])"
    and dL: "\<forall>j<cols ([ex_indef] ! 0).
               el L j j = fsqrt (fmax (pivotL ([ex_indef] ! 0) L j) (Fin 0)) \<and>
               \<not> fgt (Fin 0) (fmax (pivotL ([ex_indef] ! 0) L j) (Fin 0)) \<and>
               (el L j j = NaN \<longrightarrow> pivotL ([ex_indef] ! 0) L j = NaN)"
    by blast
  have "L = ex_indef_L" using L ex_CholeskyL_indef by simp
  then have 1: "el ex_indef_L 1 1 = fsqrt (fmax (pivotL ex_indef ex_indef_L 1) (Fin 0)) \<and>
     \<not> fgt (Fin 0) (fmax (pivotL ex_indef ex_indef_L 1) (Fin 0))"
    using dL c by simp
  from t obtain R sp' where R: "CholeskyR 0 [ex_indef] = Inr (length [ex_indef], sp', [ex_indef] @ [R])"
    and dR: "\<forall>j<cols ([ex_indef] ! 0).
               el R j j = fsqrt (fmax (pivotR ([ex_indef] ! 0) R j) (Fin 0)) \<and>
               \<not> fgt (Fin 0) (fmax (pivotR ([ex_indef] ! 0) R j) (Fin 0)) \<and>
               (el R j j = NaN \<longrightarrow> pivotR ([ex_indef] ! 0) R j = NaN)"
    by blast
  have "R = ex_indef_R" using R ex_CholeskyR_indef by simp
  then have 2: "el ex_indef_R 1 1 = fsqrt (fmax (pivotR ex_indef ex_indef_R 1) (Fin 0)) \<and>
     \<not> fgt (Fin 0) (fmax (pivotR ex_indef ex_indef_R 1) (Fin 0))"
    using dR c by simp
  have 3: "pivotL ex_indef ex_indef_L 1 = Fin (- 3)" "el ex_indef_L 1 1 = Fin 0"
    by (simp_all add: spec_defs ex_indef_def ex_indef_L_def)
  show ?thesis
    using a wf sq ex_CholeskyL_indef ex_CholeskyR_indef 1 2 3 by blast
qed

section \<open>Frame conditions of the three routines\<close>

text \<open>
  C9: \<^verbatim>\<open>CholeskyL\<close> and \<^verbatim>\<open>CholeskyR\<close> allocate their factor and leave every matrix of
  the store, their argument included, as it was.  \<^verbatim>\<open>CholeskySolve\<close> returns the pointer
  \<open>b\<close> it was given and changes no matrix but the one behind \<open>b\<close>; the factor is
  unchanged (unless the caller passed the same pointer for both).
\<close>

theorem only_rhs_is_mutated:
  assumes wf: "wf_Dense (h ! a)"
  shows "(CholeskyL a h = Inr (l, sp, h') \<longrightarrow>
           a < length h \<and> l = length h \<and> length h' = Suc (length h) \<and>
           (\<forall>p<length h. h' ! p = h ! p)) \<and>
         (CholeskyR a h = Inr (r, sp', h'') \<longrightarrow>
           a < length h \<and> r = length h \<and> length h'' = Suc (length h) \<and>
           (\<forall>p<length h. h'' ! p = h ! p)) \<and>
         (CholeskySolve f b g = Inr (x, g') \<longrightarrow>
           x = b \<and> length g' = length g \<and> (\<forall>p. p \<noteq> b \<longrightarrow> g' ! p = g ! p) \<and>
           (f \<noteq> b \<longrightarrow> g' ! f = g ! f))"
proof (intro conjI impI)
  assume eq: "CholeskyL a h = Inr (l, sp, h')"
  note res = CholeskyL_result [OF wf eq]
  show "a < length h" using CholeskyL_returns [OF wf eq] by simp
  show "l = length h" by (rule res(1))
  have "length h' = length (h @ [h' ! l])" using res(2) by simp
  then show "length h' = Suc (length h)" by simp
  show "\<forall>p<length h. h' ! p = h ! p"
  proof (intro allI impI)
    fix p assume "p < length h"
    then have "(h @ [h' ! l]) ! p = h ! p" by (simp add: nth_append)
    then show "h' ! p = h ! p" using res(2) by simp
  qed
next
  assume eq: "CholeskyR a h = Inr (r, sp', h'')"
  note res = CholeskyR_result [OF wf eq]
  show "a < length h" using CholeskyR_returns [OF wf eq] by simp
  show "r = length h" by (rule res(1))
  have "length h'' = length (h @ [h'' ! r])" using res(2) by simp
  then show "length h'' = Suc (length h)" by simp
  show "\<forall>p<length h. h'' ! p = h ! p"
  proof (intro allI impI)
    fix p assume "p < length h"
    then have "(h @ [h'' ! r]) ! p = h ! p" by (simp add: nth_append)
    then show "h'' ! p = h ! p" using res(2) by simp
  qed
next
  assume eq: "CholeskySolve f b g = Inr (x, g')"
  note fr = CholeskySolve_frame [OF eq]
  show "x = b" using fr by simp
  show "length g' = length g" using fr by (simp add: only_changes_def)
  show "\<forall>p. p \<noteq> b \<longrightarrow> g' ! p = g ! p" using fr by (simp add: only_changes_def)
  assume "f \<noteq> b"
  then show "g' ! f = g ! f" using fr by (simp add: only_changes_def)
qed

theorem only_rhs_is_mutated_witness:
  "wf_Dense ([ex_A, ex_B2] ! 0) \<and>
   CholeskyL 0 [ex_A, ex_B2] = Inr (2, True, [ex_A, ex_B2, ex_L]) \<and>
   CholeskyR 0 [ex_A, ex_B2] = Inr (2, True, [ex_A, ex_B2, ex_R]) \<and>
   CholeskySolve 2 1 [ex_A, ex_B2, ex_L] = Inr (1, [ex_A, ex_X2, ex_L]) \<and>
   (2::nat) \<noteq> 1 \<and>
   [ex_A, ex_B2, ex_L] ! 0 = [ex_A, ex_B2] ! 0 \<and>
   [ex_A, ex_B2, ex_R] ! 0 = [ex_A, ex_B2] ! 0 \<and>
   [ex_A, ex_X2, ex_L] ! 2 = [ex_A, ex_B2, ex_L] ! 2 \<and>
   [ex_A, ex_X2, ex_L] ! 1 \<noteq> [ex_A, ex_B2, ex_L] ! 1"
proof -
  have wf: "wf_Dense ([ex_A, ex_B2] ! 0)" by (simp add: wf_Dense_def ex_A_def)
  note t = only_rhs_is_mutated [OF wf, of 2 True "[ex_A, ex_B2, ex_L]" 2 True "[ex_A, ex_B2, ex_R]"
      2 1 "[ex_A, ex_B2, ex_L]" 1 "[ex_A, ex_X2, ex_L]"]
  have 1: "\<forall>p<length [ex_A, ex_B2]. [ex_A, ex_B2, ex_L] ! p = [ex_A, ex_B2] ! p"
    using t ex_CholeskyL by blast
  have 2: "\<forall>p<length [ex_A, ex_B2]. [ex_A, ex_B2, ex_R] ! p = [ex_A, ex_B2] ! p"
    using t ex_CholeskyR by blast
  have 3: "(2::nat) \<noteq> 1 \<longrightarrow> [ex_A, ex_X2, ex_L] ! 2 = [ex_A, ex_B2, ex_L] ! 2"
    using t ex_CholeskySolve by blast
  have 4: "[ex_A, ex_X2, ex_L] ! 1 \<noteq> [ex_A, ex_B2, ex_L] ! 1"
    by (simp add: ex_X2_def ex_B2_def)
  have 5: "(0::nat) < length [ex_A, ex_B2]" "(2::nat) \<noteq> 1" by simp_all
  show ?thesis
    using wf ex_CholeskyL ex_CholeskyR ex_CholeskySolve 1 2 3 4 5 by blast
qed

section \<open>The diagonal of a factor accepted as positive definite\<close>



end
